theory Spec2Isabelle
  imports Main "HOL-Library.Sublist"
begin

section \<open>The Redis service: batch dispatcher and conflict-aware scheduler\<close>

text \<open>
  A shallow embedding of \<^verbatim>\<open>src/yb/redisserver/redis_service.cc\<close>.

  \<^item> A command (\<^verbatim>\<open>RedisClientCommand\<close>) is the list of its tokens, a batch the list of
    its commands.
  \<^item> Shared pointers to \<^verbatim>\<open>Block\<close>s are addresses into an explicit heap (a list of
    blocks); the null pointer is \<open>None\<close>. \<^verbatim>\<open>make_shared\<close> appends a block to the heap.
  \<^item> Undefined behaviour of the C++ (an index past the end of a vector, a null
    dereference) is a \<open>fault\<close> returned on the left of a sum.
  \<^item> Everything the inbound call and the backend observe is appended to a trace of
    events: a response at a batch index, a \<^verbatim>\<open>YBSession::Apply\<close> of an operation, a
    \<^verbatim>\<open>FlushAsync\<close> of a block, a \<^verbatim>\<open>LOG(DFATAL)\<close>.
  \<^item> What the file only declares or calls (the command parsers, the row of an
    operation, the session, the thread that runs flush callbacks) is a field of
    the record \<open>environment\<close>. A \<^verbatim>\<open>Status\<close> is \<open>None\<close> when OK and \<open>Some message\<close>
    otherwise. The backend's answers may depend on the whole trace so far.
  \<^item> Metrics, logging below DFATAL, timeouts and the latency clock are not modelled.
\<close>

subsection \<open>Commands and the command table\<close>

type_synonym RedisClientCommand = "string list"
type_synonym RedisClientBatch = "RedisClientCommand list"

datatype op_type = READ | WRITE | ECHO

record RedisCommandInfo =
  name :: string
  arity :: int
  cmd_type :: op_type

definition mk_info :: "string \<Rightarrow> int \<Rightarrow> op_type \<Rightarrow> RedisCommandInfo" where
  "mk_info n a t = \<lparr>name = n, arity = a, cmd_type = t\<rparr>"

definition REDIS_COMMANDS :: "RedisCommandInfo list" where
  "REDIS_COMMANDS =
    [mk_info ''get'' 2 READ,
     mk_info ''mget'' (-2) READ,
     mk_info ''hget'' 3 READ,
     mk_info ''hmget'' (-3) READ,
     mk_info ''hgetall'' 2 READ,
     mk_info ''smembers'' 2 READ,
     mk_info ''strlen'' 2 READ,
     mk_info ''exists'' 2 READ,
     mk_info ''getrange'' 4 READ,
     mk_info ''set'' (-3) WRITE,
     mk_info ''mset'' (-3) WRITE,
     mk_info ''hset'' 4 WRITE,
     mk_info ''hmset'' (-4) WRITE,
     mk_info ''hdel'' (-3) WRITE,
     mk_info ''sadd'' (-3) WRITE,
     mk_info ''srem'' (-3) WRITE,
     mk_info ''getset'' 3 WRITE,
     mk_info ''append'' 3 WRITE,
     mk_info ''del'' 2 WRITE,
     mk_info ''setrange'' 4 WRITE,
     mk_info ''incr'' 2 WRITE,
     mk_info ''echo'' 2 ECHO]"

text \<open>\<^verbatim>\<open>SetupMethod\<close>: \<^verbatim>\<open>command_name_to_info_map_[info.name] = info\<close>.\<close>

definition SetupMethod ::
  "(string \<rightharpoonup> RedisCommandInfo) \<Rightarrow> RedisCommandInfo \<Rightarrow> (string \<rightharpoonup> RedisCommandInfo)" where
  "SetupMethod m info = m(name info \<mapsto> info)"

definition PopulateHandlers :: "string \<rightharpoonup> RedisCommandInfo" where
  "PopulateHandlers = foldl SetupMethod Map.empty REDIS_COMMANDS"

text \<open>
  \<^verbatim>\<open>boost::to_lower\<close> in the classic locale: the bytes \<open>A\<close> .. \<open>Z\<close> (65 .. 90) move to
  \<open>a\<close> .. \<open>z\<close>, every other byte stays.
\<close>

definition to_lower_char :: "char \<Rightarrow> char" where
  "to_lower_char c =
     (if 65 \<le> (of_char c :: nat) \<and> (of_char c :: nat) \<le> 90
      then char_of ((of_char c :: nat) + 32) else c)"

definition to_lower :: "string \<Rightarrow> string" where
  "to_lower s = map to_lower_char s"

definition FetchHandler :: "RedisClientCommand \<Rightarrow> RedisCommandInfo option" where
  "FetchHandler cmd_args =
     (if length cmd_args < 1 then None
      else PopulateHandlers (to_lower (cmd_args ! 0)))"

subsection \<open>Responses, events, faults\<close>

text \<open>Of \<^verbatim>\<open>RedisResponsePB\<close> only the optional field \<^verbatim>\<open>string_response\<close> is modelled.\<close>

record RedisResponsePB =
  string_response :: "string option"

datatype response = Success RedisResponsePB | Failure string

datatype event =
    Responded nat response
  | Applied nat
  | Flushed nat
  | LogDFatal

datatype fault = OutOfBounds | NullPointer | OutOfFuel

subsection \<open>Operations, blocks, the batch context\<close>

record 'p Operation =
  read :: bool
  index :: nat
  operation :: 'p

record 'p Block =
  ops :: "'p Operation list"
  next_block :: "nat option"

record BlockData =
  used_keys :: "string set"
  block :: "nat option"

record BatchContext =
  read_data :: BlockData
  write_data :: BlockData
  flush_head :: "nat option"
  last_conflict_was_read :: "bool option"

text \<open>
  The state of one call: the batch context, the heap of blocks and the trace.
  \<open>last_conflict_was_read\<close> is the \<^verbatim>\<open>tribool\<close>, \<open>None\<close> being indeterminate.
\<close>

record 'p call_state =
  ctx :: BatchContext
  heap :: "'p Block list"
  trace :: "event list"

definition init_context :: BatchContext where
  "init_context =
     \<lparr>read_data = \<lparr>used_keys = {}, block = None\<rparr>,
      write_data = \<lparr>used_keys = {}, block = None\<rparr>,
      flush_head = None,
      last_conflict_was_read = None\<rparr>"

definition init_state :: "'p call_state" where
  "init_state = \<lparr>ctx = init_context, heap = [], trace = []\<rparr>"

definition data :: "bool \<Rightarrow> BatchContext \<Rightarrow> BlockData" where
  "data rd c = (if rd then read_data c else write_data c)"

definition set_data :: "bool \<Rightarrow> BlockData \<Rightarrow> BatchContext \<Rightarrow> BatchContext" where
  "set_data rd d c = (if rd then c\<lparr>read_data := d\<rparr> else c\<lparr>write_data := d\<rparr>)"

text \<open>\<^verbatim>\<open>Block::SetNext\<close> on the block at address \<open>b\<close>: returns the old successor.\<close>

definition SetNext ::
  "nat \<Rightarrow> nat option \<Rightarrow> 'p Block list \<Rightarrow> fault + (nat option \<times> 'p Block list)" where
  "SetNext b nxt h =
     (if b < length h
      then Inr (next_block (h ! b), h[b := (h ! b)\<lparr>next_block := nxt\<rparr>])
      else Inl NullPointer)"

text \<open>\<^verbatim>\<open>Block::AddOperation\<close>.\<close>

definition AddOperation :: "nat \<Rightarrow> 'p Operation \<Rightarrow> 'p Block list \<Rightarrow> fault + 'p Block list" where
  "AddOperation b oper h =
     (if b < length h
      then Inr (h[b := (h ! b)\<lparr>ops := ops (h ! b) @ [oper]\<rparr>])
      else Inl NullPointer)"

definition ConflictFound :: "bool \<Rightarrow> 'p call_state \<Rightarrow> fault + 'p call_state" where
  "ConflictFound rd s =
     (case last_conflict_was_read (ctx s) of
        None \<Rightarrow>
          (case block (data (\<not> rd) (ctx s)) of
             None \<Rightarrow> Inl NullPointer
           | Some ob \<Rightarrow>
               (case SetNext ob (block (data rd (ctx s))) (heap s) of
                  Inl e \<Rightarrow> Inl e
                | Inr (old_value, h') \<Rightarrow>
                    Inr (s\<lparr>ctx := (ctx s)\<lparr>flush_head := Some ob,
                                             last_conflict_was_read := Some rd\<rparr>,
                           heap := h'\<rparr>)))
      | Some _ \<Rightarrow>
          Inr (s\<lparr>ctx := (set_data rd ((data rd (ctx s))\<lparr>block := None, used_keys := {}\<rparr>) (ctx s))
                          \<lparr>last_conflict_was_read := Some rd\<rparr>\<rparr>))"

definition CheckConflicts :: "bool \<Rightarrow> string list \<Rightarrow> 'p call_state \<Rightarrow> fault + 'p call_state" where
  "CheckConflicts rd keys s =
     (if last_conflict_was_read (ctx s) = Some rd then Inr s
      else if list_ex (\<lambda>key. key \<in> used_keys (data (\<not> rd) (ctx s))) keys
           then ConflictFound rd s
           else Inr s)"

definition RememberKeys :: "bool \<Rightarrow> string list \<Rightarrow> BatchContext \<Rightarrow> BatchContext" where
  "RememberKeys rd keys c =
     set_data rd ((data rd c)\<lparr>used_keys := used_keys (data rd c) \<union> set keys\<rparr>) c"

text \<open>
  The block acquisition of \<^verbatim>\<open>BatchContext::Apply\<close>: when this kind has no open block,
  make one, and when this kind is the kind of the last conflict, install it as the
  successor of the opposite kind's block, logging at DFATAL when that block had a
  successor already. Returns the address of this kind's block.
\<close>

definition acquire_block :: "bool \<Rightarrow> 'p call_state \<Rightarrow> fault + (nat \<times> 'p call_state)" where
  "acquire_block rd s =
     (case block (data rd (ctx s)) of
        Some b \<Rightarrow> Inr (b, s)
      | None \<Rightarrow>
          (let b = length (heap s);
               h1 = heap s @ [\<lparr>ops = [], next_block = None\<rparr>];
               c1 = set_data rd ((data rd (ctx s))\<lparr>block := Some b\<rparr>) (ctx s)
           in if last_conflict_was_read (ctx s) = Some rd
              then (case block (data (\<not> rd) c1) of
                      None \<Rightarrow> Inl NullPointer
                    | Some ob \<Rightarrow>
                        (case SetNext ob (Some b) h1 of
                           Inl e \<Rightarrow> Inl e
                         | Inr (old_value, h2) \<Rightarrow>
                             Inr (b, s\<lparr>ctx := c1, heap := h2,
                                       trace := (if old_value \<noteq> None
                                                 then trace s @ [LogDFatal] else trace s)\<rparr>)))
              else Inr (b, s\<lparr>ctx := c1, heap := h1\<rparr>)))"

text \<open>\<^verbatim>\<open>BatchContext::Apply\<close>; \<open>rd\<close> is \<^verbatim>\<open>operation.read()\<close>, fixed by the template argument.\<close>

definition Apply ::
  "nat \<Rightarrow> bool \<Rightarrow> 'p \<Rightarrow> string list \<Rightarrow> 'p call_state \<Rightarrow> fault + 'p call_state" where
  "Apply idx rd p keys s =
     (case CheckConflicts rd keys s of
        Inl e \<Rightarrow> Inl e
      | Inr s1 \<Rightarrow>
          (case acquire_block rd s1 of
             Inl e \<Rightarrow> Inl e
           | Inr (b, s2) \<Rightarrow>
               (case AddOperation b \<lparr>read = rd, index = idx, operation = p\<rparr> (heap s2) of
                  Inl e \<Rightarrow> Inl e
                | Inr h3 \<Rightarrow> Inr (s2\<lparr>ctx := RememberKeys rd keys (ctx s2), heap := h3\<rparr>))))"

subsection \<open>The environment\<close>

record 'p environment =
  safe_batch :: bool
  setup_status :: "string option"
  parser :: "string \<Rightarrow> RedisClientCommand \<Rightarrow> string + 'p"
  GetBinary :: "'p \<Rightarrow> string + string"
  session_apply :: "event list \<Rightarrow> 'p Operation \<Rightarrow> string option"
  flush_status :: "event list \<Rightarrow> nat \<Rightarrow> string option"
  op_response :: "event list \<Rightarrow> 'p Operation \<Rightarrow> RedisResponsePB"
  schedule :: "event list \<Rightarrow> nat list \<Rightarrow> nat option"

text \<open>
  \<^item> \<open>safe_batch\<close>: the flag \<^verbatim>\<open>FLAGS_redis_safe_batch\<close>.
  \<^item> \<open>setup_status\<close>: the status of \<^verbatim>\<open>SetUpYBClient\<close> (\<open>None\<close> also when the client was
    initialised before), printed.
  \<^item> \<open>parser n c\<close>: the parser \<^verbatim>\<open>Parse<cname>\<close> of the command named \<open>n\<close> on the tokens
    \<open>c\<close>: the message of a failed status, or the populated operation.
  \<^item> \<open>GetBinary p\<close>: \<^verbatim>\<open>op->row().GetBinary(kRedisKeyColumnName, &key)\<close>: the message of a
    failed status, or the key.
  \<^item> \<open>session_apply t o\<close>: the status of \<^verbatim>\<open>session->Apply\<close> of operation \<open>o\<close> after trace \<open>t\<close>.
  \<^item> \<open>flush_status t b\<close>: the status the flush of block \<open>b\<close> hands to its callback.
  \<^item> \<open>op_response t o\<close>: \<^verbatim>\<open>op.response()\<close> read in the callback.
  \<^item> \<open>schedule t ps\<close>: which pending callback (a block among \<open>ps\<close>) runs next, or \<open>None\<close>
    to let the thread of \<^verbatim>\<open>Handle\<close> go on.
\<close>

subsection \<open>The dispatcher\<close>

definition RespondWithFailure ::
  "RedisClientBatch \<Rightarrow> nat \<Rightarrow> string \<Rightarrow> 'p call_state \<Rightarrow> fault + 'p call_state" where
  "RespondWithFailure batch idx error s =
     (if length batch \<le> idx then Inl OutOfBounds
      else if length (batch ! idx) \<le> 0 then Inl OutOfBounds
      else Inr (s\<lparr>trace := trace s @
                   [Responded idx (Failure ((batch ! idx) ! 0 @ '': '' @ error))]\<rparr>))"

definition ParseEcho :: "RedisClientCommand \<Rightarrow> fault + string" where
  "ParseEcho command = (if length command \<le> 1 then Inl OutOfBounds else Inr (command ! 1))"

definition EchoCommand ::
  "RedisClientBatch \<Rightarrow> nat \<Rightarrow> 'p call_state \<Rightarrow> fault + 'p call_state" where
  "EchoCommand batch idx s =
     (if length batch \<le> idx then Inl OutOfBounds
      else case ParseEcho (batch ! idx) of
             Inl e \<Rightarrow> Inl e
           | Inr str \<Rightarrow>
               Inr (s\<lparr>trace := trace s @
                      [Responded idx (Success \<lparr>string_response = Some str\<rparr>)]\<rparr>))"

text \<open>\<^verbatim>\<open>Command<Op>\<close>; \<open>rd\<close> is true for \<^verbatim>\<open>YBRedisReadOp\<close>, false for \<^verbatim>\<open>YBRedisWriteOp\<close>.\<close>

definition Command ::
  "'p environment \<Rightarrow> RedisClientBatch \<Rightarrow> RedisCommandInfo \<Rightarrow> nat \<Rightarrow> bool \<Rightarrow>
   'p call_state \<Rightarrow> fault + 'p call_state" where
  "Command env batch info idx rd s =
     (if length batch \<le> idx then Inl OutOfBounds
      else case parser env (name info) (batch ! idx) of
             Inl msg \<Rightarrow> RespondWithFailure batch idx msg s
           | Inr p \<Rightarrow>
               if safe_batch env
               then (case GetBinary env p of
                       Inl msg \<Rightarrow> RespondWithFailure batch idx msg s
                     | Inr key \<Rightarrow> Apply idx rd p [key] s)
               else Apply idx rd p [] s)"

text \<open>The functor stored in the table for a command of each kind.\<close>

definition functor_of ::
  "'p environment \<Rightarrow> RedisClientBatch \<Rightarrow> RedisCommandInfo \<Rightarrow> nat \<Rightarrow>
   'p call_state \<Rightarrow> fault + 'p call_state" where
  "functor_of env batch info idx s =
     (case cmd_type info of
        READ \<Rightarrow> Command env batch info idx True s
      | WRITE \<Rightarrow> Command env batch info idx False s
      | ECHO \<Rightarrow> EchoCommand batch idx s)"

text \<open>The body of the loop of \<^verbatim>\<open>Handle\<close>, for the command at \<open>idx\<close>.\<close>

definition Handle_command ::
  "'p environment \<Rightarrow> RedisClientBatch \<Rightarrow> nat \<Rightarrow> 'p call_state \<Rightarrow> fault + 'p call_state" where
  "Handle_command env batch idx s =
     (let c = batch ! idx in
      case FetchHandler c of
        None \<Rightarrow> RespondWithFailure batch idx ''Unsupported call.'' s
      | Some cmd_info \<Rightarrow>
          if arity cmd_info < 0 \<and> int (length c) < - 1 * arity cmd_info
          then RespondWithFailure batch idx ''Too few arguments.'' s
          else if arity cmd_info > 0 \<and> int (length c) \<noteq> arity cmd_info
          then RespondWithFailure batch idx ''Wrong number of arguments.'' s
          else functor_of env batch cmd_info idx s)"

text \<open>A loop \<^verbatim>\<open>for (idx = i; idx != i + n; ++idx)\<close> whose body may fault.\<close>

fun for_loop ::
  "(nat \<Rightarrow> 's \<Rightarrow> fault + 's) \<Rightarrow> nat \<Rightarrow> nat \<Rightarrow> 's \<Rightarrow> fault + 's" where
  "for_loop body i 0 s = Inr s"
| "for_loop body i (Suc n) s =
     (case body i s of Inl e \<Rightarrow> Inl e | Inr s' \<Rightarrow> for_loop body (Suc i) n s')"

text \<open>
  \<^verbatim>\<open>Handle\<close> up to, and without, \<^verbatim>\<open>context.Commit()\<close>. The flag tells whether the commit
  is reached: it is not when the client could not be set up.
\<close>

definition Handle_dispatch ::
  "'p environment \<Rightarrow> RedisClientBatch \<Rightarrow> fault + (bool \<times> 'p call_state)" where
  "Handle_dispatch env batch =
     (case setup_status env of
        Some status \<Rightarrow>
          (case for_loop (\<lambda>idx. RespondWithFailure batch idx
                                  (''Could not open .redis table. '' @ status))
                  0 (length batch) init_state of
             Inl e \<Rightarrow> Inl e
           | Inr s \<Rightarrow> Inr (False, s))
      | None \<Rightarrow>
          (case for_loop (Handle_command env batch) 0 (length batch) init_state of
             Inl e \<Rightarrow> Inl e
           | Inr s \<Rightarrow> Inr (True, s)))"

subsection \<open>Launching blocks, flush callbacks, commit\<close>

text \<open>
  The loop of \<^verbatim>\<open>Block::Launch\<close> over \<^verbatim>\<open>ops_\<close>: every operation is applied to the session;
  one that the session rejects is answered with that status at once. The flag is
  \<^verbatim>\<open>has_ok\<close>. The list \<^verbatim>\<open>ops_\<close> is only read.
\<close>

fun apply_ops ::
  "'p environment \<Rightarrow> 'p Operation list \<Rightarrow> event list \<Rightarrow> bool \<Rightarrow> event list \<times> bool" where
  "apply_ops env [] tr has_ok = (tr, has_ok)"
| "apply_ops env (oper # rest) tr has_ok =
     (case session_apply env tr oper of
        Some status \<Rightarrow>
          apply_ops env rest
            (tr @ [Applied (index oper), Responded (index oper) (Failure status)]) has_ok
      | None \<Rightarrow> apply_ops env rest (tr @ [Applied (index oper)]) True)"

text \<open>
  \<^verbatim>\<open>Block::Launch\<close> of the block at address \<open>b\<close>. The state is the trace and the list of
  blocks whose flush was issued and whose callback has not run yet. \<^verbatim>\<open>Launch\<close> calls
  itself on the successor when no operation was accepted; the first argument bounds
  the depth of these calls.
\<close>

fun Launch ::
  "nat \<Rightarrow> 'p environment \<Rightarrow> 'p Block list \<Rightarrow> nat \<Rightarrow> event list \<times> nat list \<Rightarrow>
   fault + (event list \<times> nat list)" where
  "Launch 0 env h b st = Inl OutOfFuel"
| "Launch (Suc fuel) env h b (tr, pend) =
     (if length h \<le> b then Inl NullPointer
      else if ops (h ! b) = [] then Inl OutOfBounds
      else case apply_ops env (ops (h ! b)) tr False of
             (tr1, has_ok) \<Rightarrow>
               if has_ok then Inr (tr1 @ [Flushed b], pend @ [b])
               else (case next_block (h ! b) of
                       Some nb \<Rightarrow> Launch fuel env h nb (tr1, pend)
                     | None \<Rightarrow> Inr (tr1, pend)))"

text \<open>\<^verbatim>\<open>Block::Done\<close>, run by the callback of the flush of block \<open>b\<close>.\<close>

definition done_responses :: "'p environment \<Rightarrow> event list \<Rightarrow> nat \<Rightarrow> 'p Operation list \<Rightarrow> event list" where
  "done_responses env tr b os =
     (case flush_status env tr b of
        None \<Rightarrow> map (\<lambda>oper. Responded (index oper) (Success (op_response env tr oper))) os
      | Some status \<Rightarrow> map (\<lambda>oper. Responded (index oper) (Failure status)) os)"

definition Done ::
  "nat \<Rightarrow> 'p environment \<Rightarrow> 'p Block list \<Rightarrow> nat \<Rightarrow> event list \<times> nat list \<Rightarrow>
   fault + (event list \<times> nat list)" where
  "Done fuel env h b st =
     (case st of (tr, pend) \<Rightarrow>
        if length h \<le> b then Inl NullPointer
        else (case next_block (h ! b) of
                Some nb \<Rightarrow> Launch fuel env h nb (tr @ done_responses env tr b (ops (h ! b)), pend)
              | None \<Rightarrow> Inr (tr @ done_responses env tr b (ops (h ! b)), pend)))"

text \<open>The blocks \<^verbatim>\<open>BatchContext::Commit\<close> launches itself, in its order.\<close>

definition Commit_launches :: "BatchContext \<Rightarrow> nat list" where
  "Commit_launches c =
     (case flush_head c of
        Some b \<Rightarrow> [b]
      | None \<Rightarrow>
          (case block (read_data c) of Some b \<Rightarrow> [b] | None \<Rightarrow> []) @
          (case block (write_data c) of Some b \<Rightarrow> [b] | None \<Rightarrow> []))"

text \<open>
  Flush callbacks run on threads of the backend client, between or after the launches
  of \<^verbatim>\<open>Commit\<close>. One step is either the next launch of \<^verbatim>\<open>Commit\<close> (\<open>MainThread\<close>) or one
  pending callback, run to its end (\<open>Callback\<close>); \<open>schedule\<close> chooses, and every issued
  flush is called back in the end.
\<close>

datatype step = MainThread nat "nat list" | Callback nat | Idle

fun next_step :: "'p environment \<Rightarrow> nat list \<Rightarrow> event list \<Rightarrow> nat list \<Rightarrow> step" where
  "next_step env (b # rest) tr pend =
     (case schedule env tr pend of
        Some c \<Rightarrow> if c \<in> set pend then Callback c else MainThread b rest
      | None \<Rightarrow> MainThread b rest)"
| "next_step env [] tr (p # pend) =
     (case schedule env tr (p # pend) of
        Some c \<Rightarrow> if c \<in> set (p # pend) then Callback c else Callback p
      | None \<Rightarrow> Callback p)"
| "next_step env [] tr [] = Idle"

fun run ::
  "nat \<Rightarrow> 'p environment \<Rightarrow> 'p Block list \<Rightarrow> nat list \<Rightarrow> event list \<times> nat list \<Rightarrow>
   fault + event list" where
  "run 0 env h main (tr, pend) =
     (if main = [] \<and> pend = [] then Inr tr else Inl OutOfFuel)"
| "run (Suc fuel) env h main (tr, pend) =
     (case next_step env main tr pend of
        Idle \<Rightarrow> Inr tr
      | MainThread b rest \<Rightarrow>
          (case Launch fuel env h b (tr, pend) of
             Inl e \<Rightarrow> Inl e
           | Inr st \<Rightarrow> run fuel env h rest st)
      | Callback b \<Rightarrow>
          (case Done fuel env h b (tr, remove1 b pend) of
             Inl e \<Rightarrow> Inl e
           | Inr st \<Rightarrow> run fuel env h main st))"

text \<open>
  \<^verbatim>\<open>Handle\<close> together with the callbacks of the flushes it started: the trace of the
  whole life of the batch.
\<close>

definition Handle :: "nat \<Rightarrow> 'p environment \<Rightarrow> RedisClientBatch \<Rightarrow> fault + event list" where
  "Handle fuel env batch =
     (case Handle_dispatch env batch of
        Inl e \<Rightarrow> Inl e
      | Inr (committed, s) \<Rightarrow>
          if committed then run fuel env (heap s) (Commit_launches (ctx s)) (trace s, [])
          else Inr (trace s))"

section \<open>Definitions used to state the properties\<close>

text \<open>A sequence of calls of \<^verbatim>\<open>BatchContext::Apply\<close>, each with its index, kind, operation and keys.\<close>

fun Apply_all ::
  "(nat \<times> bool \<times> 'p \<times> string list) list \<Rightarrow> 'p call_state \<Rightarrow> fault + 'p call_state" where
  "Apply_all [] s = Inr s"
| "Apply_all ((idx, rd, p, keys) # rest) s =
     (case Apply idx rd p keys s of Inl e \<Rightarrow> Inl e | Inr s' \<Rightarrow> Apply_all rest s')"

text \<open>
  What \<^verbatim>\<open>Handle\<close> hands to the scheduler for a command: nothing when the command is
  unknown, fails its arity rule, is an ECHO, or fails in its parser or in the read of
  its key; otherwise the kind (true for READ), the operation and the key list that
  \<^verbatim>\<open>Command\<close> passes to \<^verbatim>\<open>BatchContext::Apply\<close>.
\<close>

definition scheduled ::
  "'p environment \<Rightarrow> RedisClientCommand \<Rightarrow> (bool \<times> 'p \<times> string list) option" where
  "scheduled env c =
     (case FetchHandler c of
        None \<Rightarrow> None
      | Some info \<Rightarrow>
          if arity info < 0 \<and> int (length c) < - 1 * arity info then None
          else if arity info > 0 \<and> int (length c) \<noteq> arity info then None
          else if cmd_type info = ECHO then None
          else (case parser env (name info) c of
                  Inl msg \<Rightarrow> None
                | Inr p \<Rightarrow>
                    if safe_batch env
                    then (case GetBinary env p of
                            Inl msg \<Rightarrow> None
                          | Inr key \<Rightarrow> Some (cmd_type info = READ, p, [key]))
                    else Some (cmd_type info = READ, p, [])))"

text \<open>
  A list of block addresses is a chain of the heap when each block's successor is the
  next address of the list and the last block has none.
\<close>

fun is_chain :: "'p Block list \<Rightarrow> nat list \<Rightarrow> bool" where
  "is_chain h [] = True"
| "is_chain h (a # rest) =
     (a < length h \<and>
      next_block (h ! a) = (case rest of [] \<Rightarrow> None | b # _ \<Rightarrow> Some b) \<and>
      is_chain h rest)"

text \<open>
  The invariant of the scheduler, for the chain \<open>cs\<close> built so far. No block is empty;
  a kind with used keys has an open block; the open blocks are two different blocks
  of the heap. Before the first conflict there is no chain and no successor, and every
  block is the open block of a kind. After a conflict the chain holds every block of
  the heap once, starts at \<open>flush_head\<close> and ends with the open block of the other
  kind followed by the open block of the kind of the last conflict.
\<close>

definition sched_inv :: "nat list \<Rightarrow> 'p call_state \<Rightarrow> bool" where
  "sched_inv cs s \<longleftrightarrow>
     (\<forall>b < length (heap s). ops (heap s ! b) \<noteq> []) \<and>
     (\<forall>rd. used_keys (data rd (ctx s)) \<noteq> {} \<longrightarrow> block (data rd (ctx s)) \<noteq> None) \<and>
     (\<forall>rd b. block (data rd (ctx s)) = Some b \<longrightarrow>
        b < length (heap s) \<and> block (data (\<not> rd) (ctx s)) \<noteq> Some b) \<and>
     (case last_conflict_was_read (ctx s) of
        None \<Rightarrow>
          cs = [] \<and> flush_head (ctx s) = None \<and>
          (\<forall>b < length (heap s).
             next_block (heap s ! b) = None \<and> (\<exists>rd. block (data rd (ctx s)) = Some b))
      | Some rd \<Rightarrow>
          is_chain (heap s) cs \<and> distinct cs \<and> set cs = {..<length (heap s)} \<and>
          (\<exists>pre P L. cs = pre @ [P, L] \<and> block (data rd (ctx s)) = Some L \<and>
                      block (data (\<not> rd) (ctx s)) = Some P) \<and>
          flush_head (ctx s) = Some (hd cs))"

text \<open>
  The statuses the session returns, in order, while \<^verbatim>\<open>Block::Launch\<close> applies the
  operations of a block, the trace growing as in \<open>apply_ops\<close>.
\<close>

fun apply_statuses ::
  "'p environment \<Rightarrow> 'p Operation list \<Rightarrow> event list \<Rightarrow> string option list" where
  "apply_statuses env [] tr = []"
| "apply_statuses env (oper # rest) tr =
     (case session_apply env tr oper of
        Some status \<Rightarrow>
          Some status # apply_statuses env rest
            (tr @ [Applied (index oper), Responded (index oper) (Failure status)])
      | None \<Rightarrow> None # apply_statuses env rest (tr @ [Applied (index oper)]))"

text \<open>The batch index an event is about, if any.\<close>

fun event_index :: "event \<Rightarrow> nat option" where
  "event_index (Responded i r) = Some i"
| "event_index (Applied i) = Some i"
| "event_index (Flushed b) = None"
| "event_index LogDFatal = None"

text \<open>
  The events the dispatcher itself may emit before the commit: a response at an index
  of the batch, a failure carrying the first token of that command, a colon, a blank
  and an error text; or the DFATAL log line.
\<close>

fun dispatch_event :: "RedisClientBatch \<Rightarrow> event \<Rightarrow> bool" where
  "dispatch_event batch (Responded i (Failure m)) =
     (i < length batch \<and> batch ! i \<noteq> [] \<and> prefix ((batch ! i) ! 0 @ '': '') m)"
| "dispatch_event batch (Responded i (Success r)) = (i < length batch)"
| "dispatch_event batch LogDFatal = True"
| "dispatch_event batch (Applied i) = False"
| "dispatch_event batch (Flushed b) = False"

text \<open>
  Environments for worked examples. The parser takes the second token as the operation
  and as its key. In \<open>example_env\<close> the backend accepts and flushes everything; in
  \<open>rejecting_env\<close> the session rejects the operation of batch index 0 when it is applied.
\<close>

definition example_env :: "string environment" where
  "example_env =
     \<lparr>safe_batch = True,
      setup_status = None,
      parser = (\<lambda>n c. if length c < 2 then Inl ''no key'' else Inr (c ! 1)),
      GetBinary = (\<lambda>p. Inr p),
      session_apply = (\<lambda>tr oper. None),
      flush_status = (\<lambda>tr b. None),
      op_response = (\<lambda>tr oper. \<lparr>string_response = Some (operation oper)\<rparr>),
      schedule = (\<lambda>tr ps. None)\<rparr>"

definition rejecting_env :: "string environment" where
  "rejecting_env =
     example_env\<lparr>session_apply :=
       (\<lambda>tr oper. if index oper = 0 then Some ''rejected'' else None)\<rparr>"

text \<open>
  The key of an operation, and when two operations conflict: they are of opposite
  kinds and have the same key.
\<close>

definition key_of :: "'p environment \<Rightarrow> 'p Operation \<Rightarrow> string + string" where
  "key_of env oper = GetBinary env (operation oper)"

definition conflicting :: "'p environment \<Rightarrow> 'p Operation \<Rightarrow> 'p Operation \<Rightarrow> bool" where
  "conflicting env o1 o2 \<longleftrightarrow>
     read o1 \<noteq> read o2 \<and>
     (case key_of env o1 of Inr k \<Rightarrow> key_of env o2 = Inr k | Inl m \<Rightarrow> False)"

text \<open>
  Invariants of the dispatcher after \<open>n\<close> commands, on the operation lists \<open>os\<close> of the
  blocks of the heap. \<open>base_inv\<close>: every operation of the heap is what its command
  hands to the scheduler, every command below \<open>n\<close> that reaches the scheduler is in
  the heap, two blocks share no index, and a block holds one kind only.
  \<open>open_inv\<close>: the open block of a kind holds operations of that kind whose keys are
  among the used keys of the kind.
\<close>

definition base_inv ::
  "'p environment \<Rightarrow> RedisClientBatch \<Rightarrow> nat \<Rightarrow> 'p Operation list list \<Rightarrow> bool" where
  "base_inv env batch n os \<longleftrightarrow>
     (\<forall>b < length os. \<forall>oper \<in> set (os ! b).
        index oper < n \<and>
        (\<exists>k. scheduled env (batch ! index oper) = Some (read oper, operation oper, [k]))) \<and>
     (\<forall>i < n. scheduled env (batch ! i) \<noteq> None \<longrightarrow>
        (\<exists>b < length os. i \<in> index ` set (os ! b))) \<and>
     (\<forall>b1 < length os. \<forall>b2 < length os.
        b1 \<noteq> b2 \<longrightarrow> index ` set (os ! b1) \<inter> index ` set (os ! b2) = {}) \<and>
     (\<forall>b < length os. \<forall>o1 \<in> set (os ! b). \<forall>o2 \<in> set (os ! b). read o1 = read o2)"

definition open_inv ::
  "'p environment \<Rightarrow> (bool \<Rightarrow> nat option) \<Rightarrow> (bool \<Rightarrow> string set) \<Rightarrow>
   'p Operation list list \<Rightarrow> bool" where
  "open_inv env bl uk os \<longleftrightarrow>
     (\<forall>rd b. bl rd = Some b \<longrightarrow>
        (\<forall>oper \<in> set (os ! b).
           read oper = rd \<and> (\<forall>k. key_of env oper = Inr k \<longrightarrow> k \<in> uk rd)))"

text \<open>
  Before the first conflict no two operations of the heap conflict. After it, of two
  conflicting operations the one of the smaller batch index is in a block that comes
  earlier in the chain.
\<close>

definition no_conflicts :: "'p environment \<Rightarrow> 'p Operation list list \<Rightarrow> bool" where
  "no_conflicts env os \<longleftrightarrow>
     (\<forall>b1 < length os. \<forall>b2 < length os.
        \<forall>o1 \<in> set (os ! b1). \<forall>o2 \<in> set (os ! b2). \<not> conflicting env o1 o2)"

definition chain_ordered ::
  "'p environment \<Rightarrow> nat list \<Rightarrow> 'p Operation list list \<Rightarrow> bool" where
  "chain_ordered env cs os \<longleftrightarrow>
     (\<forall>p < length cs. \<forall>q < length cs.
        \<forall>o1 \<in> set (os ! (cs ! p)). \<forall>o2 \<in> set (os ! (cs ! q)).
          index o1 < index o2 \<longrightarrow> conflicting env o1 o2 \<longrightarrow> p < q)"

definition order_inv ::
  "'p environment \<Rightarrow> RedisClientBatch \<Rightarrow> nat \<Rightarrow> nat list \<Rightarrow> 'p call_state \<Rightarrow> bool" where
  "order_inv env batch n cs s \<longleftrightarrow>
     base_inv env batch n (map ops (heap s)) \<and>
     open_inv env (\<lambda>rd. block (data rd (ctx s))) (\<lambda>rd. used_keys (data rd (ctx s)))
       (map ops (heap s)) \<and>
     (case last_conflict_was_read (ctx s) of
        None \<Rightarrow> no_conflicts env (map ops (heap s))
      | Some rd \<Rightarrow> chain_ordered env cs (map ops (heap s)))"

text \<open>
  Traces of a chain of blocks. \<open>block_events I u\<close>: the events of \<open>u\<close> that carry a batch
  index carry one of \<open>I\<close>. \<open>block_trace I u\<close>: moreover every index of \<open>I\<close> is answered
  in \<open>u\<close>. \<open>seq_trace Is u\<close>: \<open>u\<close> is one such trace after the other, in the order of
  the index sets \<open>Is\<close>.
\<close>

definition block_events :: "nat set \<Rightarrow> event list \<Rightarrow> bool" where
  "block_events I u \<longleftrightarrow> (\<forall>e \<in> set u. \<forall>i. event_index e = Some i \<longrightarrow> i \<in> I)"

definition block_trace :: "nat set \<Rightarrow> event list \<Rightarrow> bool" where
  "block_trace I u \<longleftrightarrow> block_events I u \<and> (\<forall>i \<in> I. \<exists>r. Responded i r \<in> set u)"

fun seq_trace :: "nat set list \<Rightarrow> event list \<Rightarrow> bool" where
  "seq_trace [] u = (u = [])"
| "seq_trace (I # Is) u = (\<exists>u1 u2. u = u1 @ u2 \<and> block_trace I u1 \<and> seq_trace Is u2)"

definition idxs :: "'p Block list \<Rightarrow> nat \<Rightarrow> nat set" where
  "idxs h b = index ` set (ops (h ! b))"

text \<open>
  The state of a run that launched the head of the chain \<open>cs\<close> after the trace \<open>tr0\<close>:
  the blocks of a prefix of the chain are through, one after the other; the next
  block, if any, waits for its callback, and what it emitted so far is about its own
  operations.
\<close>

definition chain_run ::
  "'p Block list \<Rightarrow> nat list \<Rightarrow> event list \<Rightarrow> event list \<Rightarrow> nat list \<Rightarrow> bool" where
  "chain_run h cs tr0 tr pend \<longleftrightarrow>
     (\<exists>through rest u v.
        cs = through @ rest \<and> tr = tr0 @ u @ v \<and>
        seq_trace (map (idxs h) through) u \<and>
        (case rest of
           [] \<Rightarrow> pend = [] \<and> v = []
         | b # rest' \<Rightarrow> pend = [b] \<and> block_events (idxs h b) v))"

text \<open>
  What a command gets at its own batch index. \<open>responses_at i tr\<close>: the responses at
  index \<open>i\<close> in the trace \<open>tr\<close>, in the order of the trace. \<open>heap_ops h\<close>: the
  operations held by the blocks of the heap. \<open>dispatcher_answer env c\<close>: the response
  the loop body of \<^verbatim>\<open>Handle\<close> emits itself for the command \<open>c\<close> when the client is set
  up, path by path of the source (unknown command, the two arity rules, ECHO, parser
  error, key error); nothing when the command is handed to \<^verbatim>\<open>BatchContext::Apply\<close>.
\<close>

fun responses_at :: "nat \<Rightarrow> event list \<Rightarrow> response list" where
  "responses_at i [] = []"
| "responses_at i (Responded j r # tr) =
     (if j = i then r # responses_at i tr else responses_at i tr)"
| "responses_at i (e # tr) = responses_at i tr"

definition heap_ops :: "'p Block list \<Rightarrow> 'p Operation set" where
  "heap_ops h = set (concat (map ops h))"

definition dispatcher_answer :: "'p environment \<Rightarrow> RedisClientCommand \<Rightarrow> response option" where
  "dispatcher_answer env c =
     (case FetchHandler c of
        None \<Rightarrow> Some (Failure (c ! 0 @ '': Unsupported call.''))
      | Some info \<Rightarrow>
          if arity info < 0 \<and> int (length c) < - 1 * arity info
          then Some (Failure (c ! 0 @ '': Too few arguments.''))
          else if arity info > 0 \<and> int (length c) \<noteq> arity info
          then Some (Failure (c ! 0 @ '': Wrong number of arguments.''))
          else if cmd_type info = ECHO
          then Some (Success \<lparr>string_response = Some (c ! 1)\<rparr>)
          else (case parser env (name info) c of
                  Inl msg \<Rightarrow> Some (Failure (c ! 0 @ '': '' @ msg))
                | Inr p \<Rightarrow>
                    if safe_batch env
                    then (case GetBinary env p of
                            Inl msg \<Rightarrow> Some (Failure (c ! 0 @ '': '' @ msg))
                          | Inr key \<Rightarrow> None)
                    else None))"

text \<open>
  Two more environments for worked examples: in \<open>setup_failed_env\<close> the set-up of the
  client fails with the status \<open>no table\<close>; in \<open>same_text_env\<close> the parser of every
  command rejects its tokens with the text \<open>Wrong number of arguments.\<close>
\<close>

definition setup_failed_env :: "string environment" where
  "setup_failed_env = example_env\<lparr>setup_status := Some ''no table''\<rparr>"

definition same_text_env :: "string environment" where
  "same_text_env = example_env\<lparr>parser := (\<lambda>n c. Inl ''Wrong number of arguments.'')\<rparr>"

section \<open>The dispatcher\<close>

subsection \<open>The command table and faults\<close>


lemma foldl_SetupMethod_Some:
  "foldl SetupMethod m xs k = Some info \<Longrightarrow> info \<in> set xs \<or> m k = Some info"
proof (induction xs arbitrary: m)
  case Nil
  then show ?case by simp
next
  case (Cons a xs)
  from Cons.prems have "foldl SetupMethod (SetupMethod m a) xs k = Some info" by simp
  then have "info \<in> set xs \<or> SetupMethod m a k = Some info" by (rule Cons.IH)
  then show ?case by (auto simp: SetupMethod_def split: if_splits)
qed

lemma PopulateHandlers_in_table:
  "PopulateHandlers k = Some info \<Longrightarrow> info \<in> set REDIS_COMMANDS"
  using foldl_SetupMethod_Some [of Map.empty REDIS_COMMANDS k info]
  by (simp add: PopulateHandlers_def)

lemma echo_arity:
  "info \<in> set REDIS_COMMANDS \<Longrightarrow> cmd_type info = ECHO \<Longrightarrow> arity info = 2"
  by (auto simp: REDIS_COMMANDS_def mk_info_def)

lemma table_arity_nonzero:
  "info \<in> set REDIS_COMMANDS \<Longrightarrow> arity info \<noteq> 0"
  by (auto simp: REDIS_COMMANDS_def mk_info_def)

lemma PopulateHandlers_echo: "PopulateHandlers ''echo'' = Some (mk_info ''echo'' 2 ECHO)"
  by code_simp

lemma FetchHandler_Some_nonempty: "FetchHandler c = Some info \<Longrightarrow> c \<noteq> []"
  by (auto simp: FetchHandler_def)

lemma FetchHandler_in_table: "FetchHandler c = Some info \<Longrightarrow> info \<in> set REDIS_COMMANDS"
  by (auto simp: FetchHandler_def PopulateHandlers_in_table split: if_splits)

lemma SetNext_fault: "SetNext b n h = Inl e \<Longrightarrow> e = NullPointer"
  by (auto simp: SetNext_def split: if_splits)

lemma AddOperation_fault: "AddOperation b oper h = Inl e \<Longrightarrow> e = NullPointer"
  by (auto simp: AddOperation_def split: if_splits)

lemma ConflictFound_fault: "ConflictFound rd s = Inl e \<Longrightarrow> e = NullPointer"
  by (auto simp: ConflictFound_def split: option.splits sum.splits dest: SetNext_fault)

lemma CheckConflicts_fault: "CheckConflicts rd keys s = Inl e \<Longrightarrow> e = NullPointer"
  by (auto simp: CheckConflicts_def split: if_splits dest: ConflictFound_fault)

lemma acquire_block_fault: "acquire_block rd s = Inl e \<Longrightarrow> e = NullPointer"
  by (auto simp: acquire_block_def Let_def split: option.splits sum.splits if_splits dest: SetNext_fault)

lemma Apply_fault: "Apply idx rd p keys s = Inl e \<Longrightarrow> e = NullPointer"
  by (auto simp: Apply_def split: sum.splits prod.splits
      dest: CheckConflicts_fault acquire_block_fault AddOperation_fault)

lemma RespondWithFailure_ok:
  "idx < length batch \<Longrightarrow> batch ! idx \<noteq> [] \<Longrightarrow>
   RespondWithFailure batch idx error s =
     Inr (s\<lparr>trace := trace s @ [Responded idx (Failure ((batch ! idx) ! 0 @ '': '' @ error))]\<rparr>)"
  by (simp add: RespondWithFailure_def)

lemma Command_fault:
  "idx < length batch \<Longrightarrow> batch ! idx \<noteq> [] \<Longrightarrow>
   Command env batch info idx rd s = Inl e \<Longrightarrow> e = NullPointer"
  by (auto simp: Command_def RespondWithFailure_ok split: sum.splits if_splits dest: Apply_fault)

subsection \<open>Three lookups in the command table\<close>

lemma FetchHandler_get: "FetchHandler [''get'', ''k'', ''x''] = Some (mk_info ''get'' 2 READ)"
  by code_simp

lemma FetchHandler_set: "FetchHandler [''SET'', ''k''] = Some (mk_info ''set'' (-3) WRITE)"
  by code_simp

lemma to_lower_Echo: "to_lower ''Echo'' = ''echo''"
  by code_simp

subsection \<open>The first token of a failing command\<close>

text \<open>
  C10. \<^verbatim>\<open>RespondWithFailure\<close> reads the first token of the command without a check: it
  reads out of bounds exactly when the command has no token. A command without tokens
  is not found by \<^verbatim>\<open>FetchHandler\<close>, so the dispatcher reaches that read; for a command
  with at least one token no path of the dispatcher reads a token that is not there.
\<close>
theorem failure_needs_first_token:
  assumes "idx < length batch"
  shows "(RespondWithFailure batch idx error s = Inl OutOfBounds \<longleftrightarrow> batch ! idx = []) \<and>
         (batch ! idx = [] \<longrightarrow>
            FetchHandler (batch ! idx) = None \<and>
            Handle_command env batch idx s = Inl OutOfBounds) \<and>
         (batch ! idx \<noteq> [] \<longrightarrow> Handle_command env batch idx s \<noteq> Inl OutOfBounds)"
proof -
  have a: "RespondWithFailure batch idx error s = Inl OutOfBounds \<longleftrightarrow> batch ! idx = []"
    using assms by (simp add: RespondWithFailure_def)
  have b: "FetchHandler (batch ! idx) = None \<and> Handle_command env batch idx s = Inl OutOfBounds"
    if "batch ! idx = []"
    using that assms by (simp add: FetchHandler_def Handle_command_def RespondWithFailure_def)
  have c: "Handle_command env batch idx s \<noteq> Inl OutOfBounds" if ne: "batch ! idx \<noteq> []"
  proof (cases "FetchHandler (batch ! idx)")
    case None
    then show ?thesis
      using assms ne by (simp add: Handle_command_def RespondWithFailure_ok)
  next
    case (Some info)
    have tab: "info \<in> set REDIS_COMMANDS" using Some by (rule FetchHandler_in_table)
    have f: "functor_of env batch info idx s \<noteq> Inl OutOfBounds"
      if ar: "\<not> (arity info > 0 \<and> int (length (batch ! idx)) \<noteq> arity info)"
    proof (cases "cmd_type info")
      case READ
      then show ?thesis
        using Command_fault [OF assms ne, of env info True s OutOfBounds]
        by (auto simp: functor_of_def)
    next
      case WRITE
      then show ?thesis
        using Command_fault [OF assms ne, of env info False s OutOfBounds]
        by (auto simp: functor_of_def)
    next
      case ECHO
      with tab have "arity info = 2" by (simp add: echo_arity)
      with ar have "length (batch ! idx) = 2" by simp
      with ECHO assms show ?thesis
        by (simp add: functor_of_def EchoCommand_def ParseEcho_def)
    qed
    show ?thesis
      using Some assms ne f
      by (auto simp: Handle_command_def Let_def RespondWithFailure_ok)
  qed
  from a b c show ?thesis by blast
qed

theorem failure_needs_first_token_witness:
  "RespondWithFailure [[''FOO''], []] 1 ''Unsupported call.'' (init_state :: string call_state)
     = Inl OutOfBounds \<and>
   Handle_command example_env [[''FOO''], []] 1 init_state = Inl OutOfBounds \<and>
   Handle_command example_env [[''FOO''], []] 0 init_state \<noteq> Inl OutOfBounds"
  using failure_needs_first_token [of 1 "[[''FOO''], []]" "''Unsupported call.''"
          "init_state :: string call_state" example_env]
        failure_needs_first_token [of 0 "[[''FOO''], []]" "''Unsupported call.''"
          "init_state :: string call_state" example_env]
  by simp


subsection \<open>What the dispatcher emits\<close>


lemma for_loop_invariant:
  assumes "P s"
    and "for_loop body lo n s = Inr s'"
    and "\<And>i t t'. lo \<le> i \<Longrightarrow> i < lo + n \<Longrightarrow> P t \<Longrightarrow> body i t = Inr t' \<Longrightarrow> P t'"
  shows "P s'"
  using assms
proof (induction n arbitrary: lo s)
  case 0
  then show ?case by simp
next
  case (Suc n)
  from Suc.prems(2) obtain t where t: "body lo s = Inr t" and r: "for_loop body (Suc lo) n t = Inr s'"
    by (auto split: sum.splits)
  have "P t" using Suc.prems(3) [of lo s t] Suc.prems(1) t by simp
  moreover have "P u'" if "Suc lo \<le> i" "i < Suc lo + n" "P u" "body i u = Inr u'" for i u u'
    using Suc.prems(3) [of i u u'] that by simp
  ultimately show ?case using Suc.IH [of t "Suc lo"] r by blast
qed

lemma ConflictFound_trace: "ConflictFound rd s = Inr s' \<Longrightarrow> trace s' = trace s"
  by (auto simp: ConflictFound_def split: option.splits sum.splits)

lemma CheckConflicts_trace: "CheckConflicts rd keys s = Inr s' \<Longrightarrow> trace s' = trace s"
  by (auto simp: CheckConflicts_def split: if_splits dest: ConflictFound_trace)

lemma acquire_block_trace:
  "acquire_block rd s = Inr (b, s') \<Longrightarrow> trace s' = trace s \<or> trace s' = trace s @ [LogDFatal]"
  by (auto simp: acquire_block_def Let_def split: option.splits sum.splits if_splits)

lemma Apply_trace:
  "Apply idx rd p keys s = Inr s' \<Longrightarrow> trace s' = trace s \<or> trace s' = trace s @ [LogDFatal]"
  by (auto simp: Apply_def split: sum.splits prod.splits
      dest!: CheckConflicts_trace acquire_block_trace)

lemma RespondWithFailure_dispatch_event:
  assumes "RespondWithFailure batch idx error s = Inr s'"
    and "list_all (dispatch_event batch) (trace s)"
  shows "list_all (dispatch_event batch) (trace s')"
  using assms by (auto simp: RespondWithFailure_def split: if_splits)

lemma Command_dispatch_event:
  assumes "Command env batch info idx rd s = Inr s'"
    and "list_all (dispatch_event batch) (trace s)"
  shows "list_all (dispatch_event batch) (trace s')"
  using assms
  by (auto simp: Command_def split: if_splits sum.splits
      dest: RespondWithFailure_dispatch_event dest!: Apply_trace)

lemma EchoCommand_dispatch_event:
  assumes "EchoCommand batch idx s = Inr s'"
    and "list_all (dispatch_event batch) (trace s)"
  shows "list_all (dispatch_event batch) (trace s')"
  using assms by (auto simp: EchoCommand_def split: if_splits sum.splits)

lemma Handle_command_dispatch_event:
  assumes "Handle_command env batch idx s = Inr s'"
    and "list_all (dispatch_event batch) (trace s)"
  shows "list_all (dispatch_event batch) (trace s')"
  using assms
  by (auto simp: Handle_command_def Let_def functor_of_def
      split: option.splits if_splits op_type.splits
      dest: RespondWithFailure_dispatch_event Command_dispatch_event EchoCommand_dispatch_event)

lemma Handle_dispatch_events:
  assumes "Handle_dispatch env batch = Inr (committed, s)"
  shows "list_all (dispatch_event batch) (trace s)"
proof (cases "setup_status env")
  case None
  with assms have l: "for_loop (Handle_command env batch) 0 (length batch) init_state = Inr s"
    by (auto simp: Handle_dispatch_def split: sum.splits)
  show ?thesis
    by (rule for_loop_invariant [where P = "\<lambda>t. list_all (dispatch_event batch) (trace t)", OF _ l])
      (auto simp: init_state_def dest: Handle_command_dispatch_event)
next
  case (Some status)
  with assms have l: "for_loop (\<lambda>idx. RespondWithFailure batch idx
      (''Could not open .redis table. '' @ status)) 0 (length batch) init_state = Inr s"
    by (auto simp: Handle_dispatch_def split: sum.splits)
  show ?thesis
    by (rule for_loop_invariant [where P = "\<lambda>t. list_all (dispatch_event batch) (trace t)", OF _ l])
      (auto simp: init_state_def dest: RespondWithFailure_dispatch_event)
qed

subsection \<open>Two worked dispatches\<close>

lemma Handle_dispatch_FOO:
  "Handle_dispatch example_env [[''FOO'', ''a'', ''b'']] =
     Inr (True, init_state\<lparr>trace := [Responded 0 (Failure ''FOO: Unsupported call.'')]\<rparr>)"
  by code_simp


lemma FetchHandler_FOO: "FetchHandler [''FOO'', ''a'', ''b''] = None"
  by code_simp

section \<open>The scheduler\<close>

subsection \<open>What reaches the scheduler\<close>


lemma Handle_command_scheduled:
  assumes "idx < length batch" and "scheduled env (batch ! idx) = Some (rd, p, keys)"
  shows "Handle_command env batch idx s = Apply idx rd p keys s"
  using assms
  by (auto simp: scheduled_def Handle_command_def Let_def functor_of_def Command_def
      split: option.splits if_splits sum.splits op_type.splits)

lemma Handle_command_not_scheduled:
  assumes "idx < length batch" and "scheduled env (batch ! idx) = None"
    and "Handle_command env batch idx s = Inr s'"
  shows "\<exists>r. s' = s\<lparr>trace := trace s @ [Responded idx r]\<rparr>"
  using assms
  by (auto simp: scheduled_def Handle_command_def Let_def functor_of_def Command_def
      RespondWithFailure_def EchoCommand_def
      split: option.splits if_splits sum.splits op_type.splits)

subsection \<open>Four alternating commands on one key\<close>

text \<open>
  C4. With safe batching on (each command hands its one key to the scheduler), a batch
  of four commands READ, WRITE, READ, WRITE on the same key leaves a heap of exactly
  four blocks of one operation each, the operation of index \<open>i\<close> in block \<open>i\<close>; the head
  of the chain is block 0, the first READ block, and block \<open>i + 1\<close> is the successor
  of block \<open>i\<close>; the last block has no successor.
\<close>

theorem alternating_chain:
  assumes "setup_status env = None"
    and "scheduled env c0 = Some (True, p0, [k])"
    and "scheduled env c1 = Some (False, p1, [k])"
    and "scheduled env c2 = Some (True, p2, [k])"
    and "scheduled env c3 = Some (False, p3, [k])"
  shows "Handle_dispatch env [c0, c1, c2, c3] =
     Inr (True,
       \<lparr>ctx = \<lparr>read_data = \<lparr>used_keys = {k}, block = Some 2\<rparr>,
               write_data = \<lparr>used_keys = {k}, block = Some 3\<rparr>,
               flush_head = Some 0,
               last_conflict_was_read = Some False\<rparr>,
        heap = [\<lparr>ops = [\<lparr>read = True, index = 0, operation = p0\<rparr>], next_block = Some 1\<rparr>,
                \<lparr>ops = [\<lparr>read = False, index = 1, operation = p1\<rparr>], next_block = Some 2\<rparr>,
                \<lparr>ops = [\<lparr>read = True, index = 2, operation = p2\<rparr>], next_block = Some 3\<rparr>,
                \<lparr>ops = [\<lparr>read = False, index = 3, operation = p3\<rparr>], next_block = None\<rparr>],
        trace = []\<rparr>)"
proof -
  let ?batch = "[c0, c1, c2, c3]"
  have h: "Handle_command env ?batch 0 s = Apply 0 True p0 [k] s"
    "Handle_command env ?batch (Suc 0) s = Apply 1 False p1 [k] s"
    "Handle_command env ?batch (Suc (Suc 0)) s = Apply (Suc (Suc 0)) True p2 [k] s"
    "Handle_command env ?batch (Suc (Suc (Suc 0))) s = Apply (Suc (Suc (Suc 0))) False p3 [k] s" for s
    using assms by (simp_all add: Handle_command_scheduled)
  show ?thesis
    using assms(1)
    by (simp add: Handle_dispatch_def h Apply_def CheckConflicts_def ConflictFound_def
        acquire_block_def AddOperation_def SetNext_def RememberKeys_def data_def set_data_def
        init_state_def init_context_def Let_def eval_nat_numeral)
qed


lemma scheduled_example_get:
  "scheduled example_env [''get'', ''k''] = Some (True, ''k'', [''k''])"
  by code_simp

lemma scheduled_example_set:
  "scheduled example_env [''set'', ''k'', ''v''] = Some (False, ''k'', [''k''])"
  by code_simp

theorem alternating_chain_witness:
  "Handle_dispatch example_env
     [[''get'', ''k''], [''set'', ''k'', ''v''], [''get'', ''k''], [''set'', ''k'', ''v'']] =
     Inr (True,
       \<lparr>ctx = \<lparr>read_data = \<lparr>used_keys = {''k''}, block = Some 2\<rparr>,
               write_data = \<lparr>used_keys = {''k''}, block = Some 3\<rparr>,
               flush_head = Some 0,
               last_conflict_was_read = Some False\<rparr>,
        heap = [\<lparr>ops = [\<lparr>read = True, index = 0, operation = ''k''\<rparr>], next_block = Some 1\<rparr>,
                \<lparr>ops = [\<lparr>read = False, index = 1, operation = ''k''\<rparr>], next_block = Some 2\<rparr>,
                \<lparr>ops = [\<lparr>read = True, index = 2, operation = ''k''\<rparr>], next_block = Some 3\<rparr>,
                \<lparr>ops = [\<lparr>read = False, index = 3, operation = ''k''\<rparr>], next_block = None\<rparr>],
        trace = []\<rparr>)"
proof -
  have "setup_status example_env = None"
    by (simp add: example_env_def)
  then show ?thesis
    by (rule alternating_chain [OF _ scheduled_example_get scheduled_example_set
          scheduled_example_get scheduled_example_set])
qed

section \<open>Launching a block\<close>


lemma apply_ops_has_ok:
  "snd (apply_ops env os tr ok) = (ok \<or> None \<in> set (apply_statuses env os tr))"
  by (induction os arbitrary: tr ok) (auto split: option.splits)

lemma apply_ops_trace:
  "\<exists>evs. fst (apply_ops env os tr ok) = tr @ evs \<and>
         (\<forall>e \<in> set evs. \<exists>oper \<in> set os. e = Applied (index oper) \<or>
              (\<exists>status. e = Responded (index oper) (Failure status)))"
proof (induction os arbitrary: tr ok)
  case Nil
  then show ?case by simp
next
  case (Cons oper rest)
  show ?case
  proof (cases "session_apply env tr oper")
    case None
    from Cons.IH [of "tr @ [Applied (index oper)]" True] None
    show ?thesis by auto
  next
    case (Some status)
    from Cons.IH [of "tr @ [Applied (index oper), Responded (index oper) (Failure status)]" ok] Some
    show ?thesis by auto
  qed
qed

text \<open>
  C6. When a block is launched and the session accepts none of its operations, the
  block issues no flush (no \<open>Flushed\<close> event, nothing added to the pending callbacks)
  and the launch goes on as the launch of its successor, if it has one; when the
  session accepts at least one operation, the flush is issued, the block waits for its
  callback, and the successor is not launched by this call.
\<close>

theorem launch_flush_or_successor:
  assumes "b < length h" and "ops (h ! b) \<noteq> []"
  shows "\<exists>evs. Flushed b \<notin> set evs \<and>
          (None \<notin> set (apply_statuses env (ops (h ! b)) tr) \<longrightarrow>
             Launch (Suc fuel) env h b (tr, pend) =
               (case next_block (h ! b) of
                  Some nb \<Rightarrow> Launch fuel env h nb (tr @ evs, pend)
                | None \<Rightarrow> Inr (tr @ evs, pend))) \<and>
          (None \<in> set (apply_statuses env (ops (h ! b)) tr) \<longrightarrow>
             Launch (Suc fuel) env h b (tr, pend) = Inr (tr @ evs @ [Flushed b], pend @ [b]))"
proof -
  obtain tr1 ok where a: "apply_ops env (ops (h ! b)) tr False = (tr1, ok)"
    by (cases "apply_ops env (ops (h ! b)) tr False")
  from apply_ops_has_ok [of env "ops (h ! b)" tr False] a
  have ok: "ok = (None \<in> set (apply_statuses env (ops (h ! b)) tr))" by simp
  from apply_ops_trace [of env "ops (h ! b)" tr False] a
  obtain evs where evs: "tr1 = tr @ evs" and f: "Flushed b \<notin> set evs"
    by auto
  show ?thesis
    using assms a ok evs f by (intro exI [of _ evs]) (simp split: option.splits)
qed

theorem launch_flush_or_successor_witness:
  "Launch 2 rejecting_env
     [\<lparr>ops = [\<lparr>read = False, index = 0, operation = ''a''\<rparr>], next_block = Some 1\<rparr>,
      \<lparr>ops = [\<lparr>read = True, index = 1, operation = ''a''\<rparr>], next_block = None\<rparr>] 0 ([], []) =
     Inr ([Applied 0, Responded 0 (Failure ''rejected''), Applied 1, Flushed 1], [1]) \<and>
   Launch 1 rejecting_env
     [\<lparr>ops = [\<lparr>read = False, index = 0, operation = ''a''\<rparr>], next_block = Some 1\<rparr>,
      \<lparr>ops = [\<lparr>read = True, index = 1, operation = ''a''\<rparr>], next_block = None\<rparr>] 1 ([], []) =
     Inr ([Applied 1, Flushed 1], [1])"
  using launch_flush_or_successor [of 0
     "[\<lparr>ops = [\<lparr>read = False, index = 0, operation = ''a''\<rparr>], next_block = Some 1\<rparr>,
      \<lparr>ops = [\<lparr>read = True, index = 1, operation = ''a''\<rparr>], next_block = None\<rparr>]"
     rejecting_env "[]" "Suc 0" "[]"]
    launch_flush_or_successor [of 1
     "[\<lparr>ops = [\<lparr>read = False, index = 0, operation = ''a''\<rparr>], next_block = Some 1\<rparr>,
      \<lparr>ops = [\<lparr>read = True, index = 1, operation = ''a''\<rparr>], next_block = None\<rparr>]"
     rejecting_env "[]" "0" "[]"]
  by (simp add: rejecting_env_def example_env_def eval_nat_numeral)

text \<open>
  C2, on the code: \<^verbatim>\<open>Launch\<close> answers a rejected operation at once but leaves it in
  \<^verbatim>\<open>ops_\<close>, and \<^verbatim>\<open>Done\<close> answers every operation of \<^verbatim>\<open>ops_\<close>. In a block of two writes of
  which the session rejects the first, index 0 is answered with the failure at launch
  and again, with a success, when the flush completes.
\<close>

theorem rejected_operation_answered_twice:
  "Launch 1 rejecting_env
     [\<lparr>ops = [\<lparr>read = False, index = 0, operation = ''a''\<rparr>,
              \<lparr>read = False, index = 1, operation = ''b''\<rparr>], next_block = None\<rparr>] 0 ([], []) =
     Inr ([Applied 0, Responded 0 (Failure ''rejected''), Applied 1, Flushed 0], [0]) \<and>
   Done 1 rejecting_env
     [\<lparr>ops = [\<lparr>read = False, index = 0, operation = ''a''\<rparr>,
              \<lparr>read = False, index = 1, operation = ''b''\<rparr>], next_block = None\<rparr>] 0
     ([Applied 0, Responded 0 (Failure ''rejected''), Applied 1, Flushed 0], []) =
     Inr ([Applied 0, Responded 0 (Failure ''rejected''), Applied 1, Flushed 0,
           Responded 0 (Success \<lparr>string_response = Some ''a''\<rparr>),
           Responded 1 (Success \<lparr>string_response = Some ''b''\<rparr>)], [])"
  by code_simp

text \<open>
  C1, on the code: the batch \<open>[SET a 1, SET b 2]\<close>, the session rejecting the first
  operation at apply and the flush succeeding, gets three responses for two commands,
  two of them at index 0.
\<close>

theorem batch_of_two_gets_three_responses:
  "Handle 3 rejecting_env [[''set'', ''a'', ''1''], [''set'', ''b'', ''2'']] =
     Inr [Applied 0, Responded 0 (Failure ''rejected''), Applied 1, Flushed 0,
          Responded 0 (Success \<lparr>string_response = Some ''a''\<rparr>),
          Responded 1 (Success \<lparr>string_response = Some ''b''\<rparr>)]"
  by code_simp


subsection \<open>The ways a call of Apply goes\<close>


lemma data_set_data [simp]:
  "data rd (set_data rd d c) = d"
  "data (\<not> rd) (set_data rd d c) = data (\<not> rd) c"
  "data rd (set_data (\<not> rd) d c) = data rd c"
  by (simp_all add: data_def set_data_def)

lemma data_set_data_if: "data rd' (set_data rd d c) = (if rd' = rd then d else data rd' c)"
  by (simp add: data_def set_data_def)

lemma set_data_fields [simp]:
  "flush_head (set_data rd d c) = flush_head c"
  "last_conflict_was_read (set_data rd d c) = last_conflict_was_read c"
  by (simp_all add: set_data_def)

lemma data_other_fields [simp]:
  "data rd (c\<lparr>flush_head := f\<rparr>) = data rd c"
  "data rd (c\<lparr>last_conflict_was_read := l\<rparr>) = data rd c"
  by (simp_all add: data_def)

lemma RememberKeys_fields [simp]:
  "flush_head (RememberKeys rd keys c) = flush_head c"
  "last_conflict_was_read (RememberKeys rd keys c) = last_conflict_was_read c"
  "block (data rd' (RememberKeys rd keys c)) = block (data rd' c)"
  "used_keys (data rd (RememberKeys rd keys c)) = used_keys (data rd c) \<union> set keys"
  "used_keys (data (\<not> rd) (RememberKeys rd keys c)) = used_keys (data (\<not> rd) c)"
  by (simp_all add: RememberKeys_def data_set_data_if)

lemma used_keys_RememberKeys_if:
  "used_keys (data rd' (RememberKeys rd keys c)) =
     (if rd' = rd then used_keys (data rd c) \<union> set keys else used_keys (data rd' c))"
  by (simp add: RememberKeys_def data_set_data_if)


lemma Apply_join:
  assumes "block (data rd (ctx s)) = Some b" and "b < length (heap s)"
    and "last_conflict_was_read (ctx s) = Some rd \<or>
         \<not> list_ex (\<lambda>key. key \<in> used_keys (data (\<not> rd) (ctx s))) keys"
  shows "Apply idx rd p keys s =
     Inr (s\<lparr>ctx := RememberKeys rd keys (ctx s),
            heap := (heap s)[b := (heap s ! b)\<lparr>ops := ops (heap s ! b) @
                       [\<lparr>read = rd, index = idx, operation = p\<rparr>]\<rparr>]\<rparr>)"
  using assms
  by (auto simp: Apply_def CheckConflicts_def acquire_block_def AddOperation_def)

lemma Apply_fresh:
  assumes "block (data rd (ctx s)) = None"
    and "last_conflict_was_read (ctx s) = None"
    and "\<not> list_ex (\<lambda>key. key \<in> used_keys (data (\<not> rd) (ctx s))) keys"
  shows "Apply idx rd p keys s =
     Inr (s\<lparr>ctx := RememberKeys rd keys
                     (set_data rd ((data rd (ctx s))\<lparr>block := Some (length (heap s))\<rparr>) (ctx s)),
            heap := heap s @ [\<lparr>ops = [\<lparr>read = rd, index = idx, operation = p\<rparr>],
                              next_block = None\<rparr>]\<rparr>)"
  using assms
  by (simp add: Apply_def CheckConflicts_def acquire_block_def AddOperation_def Let_def)

lemma Apply_first_conflict_join:
  assumes "last_conflict_was_read (ctx s) = None"
    and "list_ex (\<lambda>key. key \<in> used_keys (data (\<not> rd) (ctx s))) keys"
    and "block (data (\<not> rd) (ctx s)) = Some ob" and "ob < length (heap s)"
    and "block (data rd (ctx s)) = Some b" and "b < length (heap s)"
  shows "Apply idx rd p keys s =
     Inr (s\<lparr>ctx := RememberKeys rd keys
                     ((ctx s)\<lparr>flush_head := Some ob, last_conflict_was_read := Some rd\<rparr>),
            heap := ((heap s)[ob := (heap s ! ob)\<lparr>next_block := Some b\<rparr>])
                      [b := ((heap s)[ob := (heap s ! ob)\<lparr>next_block := Some b\<rparr>] ! b)
                              \<lparr>ops := ops ((heap s)[ob := (heap s ! ob)\<lparr>next_block := Some b\<rparr>] ! b) @
                                 [\<lparr>read = rd, index = idx, operation = p\<rparr>]\<rparr>]\<rparr>)"
  using assms
  by (simp add: Apply_def CheckConflicts_def ConflictFound_def SetNext_def
      acquire_block_def AddOperation_def)

lemma Apply_first_conflict_fresh:
  assumes "last_conflict_was_read (ctx s) = None"
    and "list_ex (\<lambda>key. key \<in> used_keys (data (\<not> rd) (ctx s))) keys"
    and "block (data (\<not> rd) (ctx s)) = Some ob" and "ob < length (heap s)"
    and "block (data rd (ctx s)) = None"
  shows "Apply idx rd p keys s =
     Inr (s\<lparr>ctx := RememberKeys rd keys
                     (set_data rd ((data rd (ctx s))\<lparr>block := Some (length (heap s))\<rparr>)
                        ((ctx s)\<lparr>flush_head := Some ob, last_conflict_was_read := Some rd\<rparr>)),
            heap := (heap s)[ob := (heap s ! ob)\<lparr>next_block := Some (length (heap s))\<rparr>] @
                      [\<lparr>ops = [\<lparr>read = rd, index = idx, operation = p\<rparr>], next_block = None\<rparr>]\<rparr>)"
  using assms
  by (simp add: Apply_def CheckConflicts_def ConflictFound_def SetNext_def
      acquire_block_def AddOperation_def Let_def nth_append list_update_append)

lemma Apply_flip:
  assumes "last_conflict_was_read (ctx s) = Some (\<not> rd)"
    and "list_ex (\<lambda>key. key \<in> used_keys (data (\<not> rd) (ctx s))) keys"
    and "block (data (\<not> rd) (ctx s)) = Some ob" and "ob < length (heap s)"
  shows "Apply idx rd p keys s =
     Inr (s\<lparr>ctx := RememberKeys rd keys
                     (set_data rd \<lparr>used_keys = {}, block = Some (length (heap s))\<rparr>
                        ((ctx s)\<lparr>last_conflict_was_read := Some rd\<rparr>)),
            heap := (heap s)[ob := (heap s ! ob)\<lparr>next_block := Some (length (heap s))\<rparr>] @
                      [\<lparr>ops = [\<lparr>read = rd, index = idx, operation = p\<rparr>], next_block = None\<rparr>],
            trace := (if next_block (heap s ! ob) \<noteq> None then trace s @ [LogDFatal]
                      else trace s)\<rparr>)"
  using assms
  by (cases rd)
    (simp_all add: Apply_def CheckConflicts_def ConflictFound_def SetNext_def
      acquire_block_def AddOperation_def Let_def nth_append list_update_append
      set_data_def data_def RememberKeys_def)


subsection \<open>The invariant of the scheduler\<close>


lemma next_block_ops_update [simp]:
  "next_block (h[b := (h ! b)\<lparr>ops := x\<rparr>] ! a) = next_block (h ! a)"
  by (cases "b < length h"; cases "a = b") (simp_all add: list_update_beyond)

lemma ops_ops_update:
  "b < length h \<Longrightarrow>
   ops (h[b := (h ! b)\<lparr>ops := x\<rparr>] ! a) = (if a = b then x else ops (h ! a))"
  by simp

lemma is_chain_ops_update [simp]:
  "is_chain (h[b := (h ! b)\<lparr>ops := x\<rparr>]) cs = is_chain h cs"
  by (induction cs) auto

lemma is_chain_last_next:
  "is_chain h cs \<Longrightarrow> cs \<noteq> [] \<Longrightarrow> next_block (h ! last cs) = None"
  by (induction cs) (auto split: list.splits)

lemma is_chain_in_range: "is_chain h cs \<Longrightarrow> b \<in> set cs \<Longrightarrow> b < length h"
  by (induction cs) auto

lemma is_chain_snoc:
  assumes "is_chain h cs" and "cs \<noteq> []" and "distinct cs" and "next_block blk = None"
  shows "is_chain (h[last cs := (h ! last cs)\<lparr>next_block := Some (length h)\<rparr>] @ [blk])
           (cs @ [length h])"
  using assms
proof (induction cs)
  case Nil
  then show ?case by simp
next
  case (Cons a rest)
  show ?case
  proof (cases rest)
    case Nil
    with Cons.prems show ?thesis by (simp add: nth_append)
  next
    case (Cons b rest')
    with Cons.prems Cons.IH have
      "is_chain (h[last rest := (h ! last rest)\<lparr>next_block := Some (length h)\<rparr>] @ [blk])
         (rest @ [length h])" by simp
    moreover have "a \<noteq> last rest" using Cons.prems \<open>rest = b # rest'\<close>
      by (metis distinct.simps(2) last_in_set list.distinct(1))
    ultimately show ?thesis
      using Cons.prems \<open>rest = b # rest'\<close> by (simp add: nth_append nth_list_update)
  qed
qed

lemma list_ex_used_keys:
  "list_ex (\<lambda>key. key \<in> A) keys \<Longrightarrow> A \<noteq> {}"
  by (auto simp: list_ex_iff)

lemma sched_inv_join:
  assumes inv: "sched_inv cs s" and b: "block (data rd (ctx s)) = Some b"
  shows "sched_inv cs (s\<lparr>ctx := RememberKeys rd keys (ctx s),
            heap := (heap s)[b := (heap s ! b)\<lparr>ops := ops (heap s ! b) @ [oper]\<rparr>]\<rparr>)"
  using assms
  by (auto simp: sched_inv_def nth_list_update used_keys_RememberKeys_if
      split: option.splits)



lemma bool_cases_neg: "(rd' :: bool) = rd \<or> rd' = (\<not> rd)"
  by auto

lemma sched_inv_None_blocks:
  assumes "sched_inv cs s" and "last_conflict_was_read (ctx s) = None"
    and "x < length (heap s)"
  shows "block (data rd (ctx s)) = Some x \<or> block (data (\<not> rd) (ctx s)) = Some x"
proof -
  from assms obtain rd' where "block (data rd' (ctx s)) = Some x"
    by (auto simp: sched_inv_def)
  then show ?thesis using bool_cases_neg [of rd' rd] by auto
qed

lemma sched_inv_block_range:
  "sched_inv cs s \<Longrightarrow> block (data rd (ctx s)) = Some x \<Longrightarrow> x < length (heap s)"
  by (auto simp: sched_inv_def)

lemma sched_inv_blocks_differ:
  "sched_inv cs s \<Longrightarrow> block (data rd (ctx s)) = Some x \<Longrightarrow>
   block (data (\<not> rd) (ctx s)) \<noteq> Some x"
  by (auto simp: sched_inv_def)

lemma sched_inv_ops: "sched_inv cs s \<Longrightarrow> b < length (heap s) \<Longrightarrow> ops (heap s ! b) \<noteq> []"
  by (auto simp: sched_inv_def)

lemma sched_inv_used_keys:
  "sched_inv cs s \<Longrightarrow> used_keys (data rd (ctx s)) \<noteq> {} \<Longrightarrow> block (data rd (ctx s)) \<noteq> None"
  by (auto simp: sched_inv_def)

lemma sched_inv_None_next:
  "sched_inv cs s \<Longrightarrow> last_conflict_was_read (ctx s) = None \<Longrightarrow> b < length (heap s) \<Longrightarrow>
   next_block (heap s ! b) = None"
  by (auto simp: sched_inv_def)

lemma sched_inv_None_chain:
  "sched_inv cs s \<Longrightarrow> last_conflict_was_read (ctx s) = None \<Longrightarrow>
   cs = [] \<and> flush_head (ctx s) = None"
  by (auto simp: sched_inv_def)

lemma sched_inv_Some:
  assumes "sched_inv cs s" and "last_conflict_was_read (ctx s) = Some rd"
  shows "is_chain (heap s) cs \<and> distinct cs \<and> set cs = {..<length (heap s)} \<and>
         (\<exists>pre P L. cs = pre @ [P, L] \<and> block (data rd (ctx s)) = Some L \<and>
                     block (data (\<not> rd) (ctx s)) = Some P) \<and>
         flush_head (ctx s) = Some (hd cs)"
  using assms by (simp add: sched_inv_def)

lemma sched_invI_Some:
  assumes l: "last_conflict_was_read (ctx s) = Some rd"
    and o: "\<And>b. b < length (heap s) \<Longrightarrow> ops (heap s ! b) \<noteq> []"
    and k: "\<And>rd'. used_keys (data rd' (ctx s)) \<noteq> {} \<Longrightarrow> block (data rd' (ctx s)) \<noteq> None"
    and L: "block (data rd (ctx s)) = Some L" and P: "block (data (\<not> rd) (ctx s)) = Some P"
    and ch: "is_chain (heap s) (pre @ [P, L])" and di: "distinct (pre @ [P, L])"
    and al: "set (pre @ [P, L]) = {..<length (heap s)}"
    and fh: "flush_head (ctx s) = Some (hd (pre @ [P, L]))"
  shows "sched_inv (pre @ [P, L]) s"
proof -
  have r: "L < length (heap s)" "P < length (heap s)" using al by auto
  have ne: "L \<noteq> P" using di by auto
  have d: "b < length (heap s) \<and> block (data (\<not> rd') (ctx s)) \<noteq> Some b"
    if "block (data rd' (ctx s)) = Some b" for rd' b
    using bool_cases_neg [of rd' rd] that L P r ne by auto
  have e: "\<exists>pre' P' L'. pre @ [P, L] = pre' @ [P', L'] \<and> block (data rd (ctx s)) = Some L' \<and>
                     block (data (\<not> rd) (ctx s)) = Some P'"
    using L P by blast
  show ?thesis
    unfolding sched_inv_def using l o k d e ch di al fh by simp
qed

lemma sched_inv_fresh:
  assumes inv: "sched_inv cs s" and l: "last_conflict_was_read (ctx s) = None"
    and b: "block (data rd (ctx s)) = None"
  shows "sched_inv cs
     (s\<lparr>ctx := RememberKeys rd keys
                 (set_data rd ((data rd (ctx s))\<lparr>block := Some (length (heap s))\<rparr>) (ctx s)),
        heap := heap s @ [\<lparr>ops = [oper], next_block = None\<rparr>]\<rparr>)"
proof -
  have other: "\<And>x. block (data (\<not> rd) (ctx s)) = Some x \<Longrightarrow> x < length (heap s)"
    using inv by (auto simp: sched_inv_def)
  have every: "\<And>x. x < length (heap s) \<Longrightarrow> block (data (\<not> rd) (ctx s)) = Some x"
    using sched_inv_None_blocks [OF inv l, of _ rd] b by auto
  show ?thesis
    using assms other
    apply (simp add: sched_inv_def nth_append used_keys_RememberKeys_if data_set_data_if less_Suc_eq)
    apply (intro conjI allI impI)
        apply (auto simp: less_Suc_eq intro: every)
    done
qed



lemma sched_inv_first_conflict_join:
  assumes inv: "sched_inv cs s" and l: "last_conflict_was_read (ctx s) = None"
    and ob: "block (data (\<not> rd) (ctx s)) = Some ob"
    and b: "block (data rd (ctx s)) = Some b"
  shows "sched_inv [ob, b]
     (s\<lparr>ctx := RememberKeys rd keys
                     ((ctx s)\<lparr>flush_head := Some ob, last_conflict_was_read := Some rd\<rparr>),
            heap := ((heap s)[ob := (heap s ! ob)\<lparr>next_block := Some b\<rparr>])
                      [b := ((heap s)[ob := (heap s ! ob)\<lparr>next_block := Some b\<rparr>] ! b)
                              \<lparr>ops := ops ((heap s)[ob := (heap s ! ob)\<lparr>next_block := Some b\<rparr>] ! b) @
                                 [oper]\<rparr>]\<rparr>)"
    (is "sched_inv _ ?s'")
proof -
  have r: "ob < length (heap s)" "b < length (heap s)"
    using inv ob b by (auto dest: sched_inv_block_range)
  have ne: "b \<noteq> ob" using sched_inv_blocks_differ [OF inv b] ob by auto
  have all: "{ob, b} = {..<length (heap s)}"
    using sched_inv_None_blocks [OF inv l, of _ rd] ob b r by auto
  have nx: "next_block (heap s ! b) = None"
    using inv l r(2) by (rule sched_inv_None_next)
  have "sched_inv ([] @ [ob, b]) ?s'"
  proof (rule sched_invI_Some [where rd = rd])
    show "last_conflict_was_read (ctx ?s') = Some rd" by simp
    show "ops (heap ?s' ! x) \<noteq> []" if "x < length (heap ?s')" for x
      using that sched_inv_ops [OF inv, of x] r by (auto simp: nth_list_update)
    show "block (data rd' (ctx ?s')) \<noteq> None" if "used_keys (data rd' (ctx ?s')) \<noteq> {}" for rd'
      using that sched_inv_used_keys [OF inv, of rd'] b
      by (auto simp: used_keys_RememberKeys_if split: if_splits)
    show "block (data rd (ctx ?s')) = Some b" using b by simp
    show "block (data (\<not> rd) (ctx ?s')) = Some ob" using ob by simp
    show "is_chain (heap ?s') ([] @ [ob, b])" using r ne nx by (simp add: nth_list_update)
    show "distinct ([] @ [ob, b])" using ne by simp
    show "set ([] @ [ob, b]) = {..<length (heap ?s')}" using all by simp
    show "flush_head (ctx ?s') = Some (hd ([] @ [ob, b]))" by simp
  qed
  then show ?thesis by simp
qed

lemma sched_inv_first_conflict_fresh:
  assumes inv: "sched_inv cs s" and l: "last_conflict_was_read (ctx s) = None"
    and ob: "block (data (\<not> rd) (ctx s)) = Some ob"
    and b: "block (data rd (ctx s)) = None"
  shows "sched_inv [ob, length (heap s)]
     (s\<lparr>ctx := RememberKeys rd keys
                     (set_data rd ((data rd (ctx s))\<lparr>block := Some (length (heap s))\<rparr>)
                        ((ctx s)\<lparr>flush_head := Some ob, last_conflict_was_read := Some rd\<rparr>)),
            heap := (heap s)[ob := (heap s ! ob)\<lparr>next_block := Some (length (heap s))\<rparr>] @
                      [\<lparr>ops = [oper], next_block = None\<rparr>]\<rparr>)"
    (is "sched_inv _ ?s'")
proof -
  have r: "ob < length (heap s)"
    using inv ob by (auto dest: sched_inv_block_range)
  have "x = ob" if "x < length (heap s)" for x
    using sched_inv_None_blocks [OF inv l that, of rd] ob b by simp
  with r have all: "{..<length (heap s)} = {ob}"
    by blast
  have "sched_inv ([] @ [ob, length (heap s)]) ?s'"
  proof (rule sched_invI_Some [where rd = rd])
    show "last_conflict_was_read (ctx ?s') = Some rd" by simp
    show "ops (heap ?s' ! x) \<noteq> []" if "x < length (heap ?s')" for x
      using that sched_inv_ops [OF inv, of x] r
      by (auto simp: nth_list_update nth_append less_Suc_eq)
    show "block (data rd' (ctx ?s')) \<noteq> None" if "used_keys (data rd' (ctx ?s')) \<noteq> {}" for rd'
      using that sched_inv_used_keys [OF inv, of rd'] b
      by (auto simp: used_keys_RememberKeys_if data_set_data_if split: if_splits)
    show "block (data rd (ctx ?s')) = Some (length (heap s))" by simp
    show "block (data (\<not> rd) (ctx ?s')) = Some ob" using ob by simp
    show "is_chain (heap ?s') ([] @ [ob, length (heap s)])"
      using r by (simp add: nth_list_update nth_append)
    show "distinct ([] @ [ob, length (heap s)])" using r by simp
    show "set ([] @ [ob, length (heap s)]) = {..<length (heap ?s')}"
      using all by (auto simp: lessThan_Suc)
    show "flush_head (ctx ?s') = Some (hd ([] @ [ob, length (heap s)]))" by simp
  qed
  then show ?thesis by simp
qed

lemma sched_inv_flip:
  assumes inv: "sched_inv cs s" and l: "last_conflict_was_read (ctx s) = Some (\<not> rd)"
    and ob: "block (data (\<not> rd) (ctx s)) = Some ob"
  shows "sched_inv (cs @ [length (heap s)])
     (s\<lparr>ctx := RememberKeys rd keys
                     (set_data rd \<lparr>used_keys = {}, block = Some (length (heap s))\<rparr>
                        ((ctx s)\<lparr>last_conflict_was_read := Some rd\<rparr>)),
            heap := (heap s)[ob := (heap s ! ob)\<lparr>next_block := Some (length (heap s))\<rparr>] @
                      [\<lparr>ops = [oper], next_block = None\<rparr>]\<rparr>)"
    (is "sched_inv _ ?s'")
proof -
  from sched_inv_Some [OF inv l] ob obtain pre P where
    ch: "is_chain (heap s) cs" and di: "distinct cs" and al: "set cs = {..<length (heap s)}"
    and cs: "cs = pre @ [P, ob]" and fh: "flush_head (ctx s) = Some (hd cs)"
    by auto
  have r: "ob < length (heap s)"
    using inv ob by (auto dest: sched_inv_block_range)
  have lst: "last cs = ob" using cs by simp
  have ne: "cs \<noteq> []" using cs by simp
  have "sched_inv ((pre @ [P]) @ [ob, length (heap s)]) ?s'"
  proof (rule sched_invI_Some [where rd = rd])
    show "last_conflict_was_read (ctx ?s') = Some rd" by simp
    show "ops (heap ?s' ! x) \<noteq> []" if "x < length (heap ?s')" for x
      using that sched_inv_ops [OF inv, of x] r
      by (auto simp: nth_list_update nth_append less_Suc_eq)
    show "block (data rd' (ctx ?s')) \<noteq> None" if "used_keys (data rd' (ctx ?s')) \<noteq> {}" for rd'
      using that sched_inv_used_keys [OF inv, of rd']
      by (auto simp: used_keys_RememberKeys_if data_set_data_if split: if_splits)
    show "block (data rd (ctx ?s')) = Some (length (heap s))" by simp
    show "block (data (\<not> rd) (ctx ?s')) = Some ob" using ob by simp
    show "is_chain (heap ?s') ((pre @ [P]) @ [ob, length (heap s)])"
      using is_chain_snoc [OF ch ne di, of "\<lparr>ops = [oper], next_block = None\<rparr>"] lst cs
      by simp
    show "distinct ((pre @ [P]) @ [ob, length (heap s)])"
      using di al cs by auto
    show "set ((pre @ [P]) @ [ob, length (heap s)]) = {..<length (heap ?s')}"
      using al cs by (auto simp: lessThan_Suc)
    show "flush_head (ctx ?s') = Some (hd ((pre @ [P]) @ [ob, length (heap s)]))"
      using fh cs by (cases pre) simp_all
  qed
  then show ?thesis using cs by simp
qed



lemma sched_inv_init: "sched_inv [] init_state"
  by (simp add: sched_inv_def init_state_def init_context_def data_def)

lemma Apply_sched_inv:
  assumes inv: "sched_inv cs s"
  shows "\<exists>s' cs'. Apply idx rd p keys s = Inr s' \<and> sched_inv cs' s' \<and> trace s' = trace s"
proof -
  let ?conflict = "list_ex (\<lambda>key. key \<in> used_keys (data (\<not> rd) (ctx s))) keys"
  let ?oper = "\<lparr>read = rd, index = idx, operation = p\<rparr>"
  have conflict_block: "\<exists>ob. block (data (\<not> rd) (ctx s)) = Some ob \<and> ob < length (heap s)"
    if "?conflict"
  proof -
    from that have "used_keys (data (\<not> rd) (ctx s)) \<noteq> {}" by (rule list_ex_used_keys)
    with inv obtain ob where "block (data (\<not> rd) (ctx s)) = Some ob"
      using sched_inv_used_keys by blast
    with inv show ?thesis using sched_inv_block_range by blast
  qed
  have join: ?thesis
    if b: "block (data rd (ctx s)) = Some b"
      and c: "last_conflict_was_read (ctx s) = Some rd \<or> \<not> ?conflict" for b
  proof -
    have r: "b < length (heap s)" using inv b by (rule sched_inv_block_range)
    show ?thesis
      using Apply_join [OF b r c, where idx = idx and p = p] sched_inv_join [OF inv b, where keys = keys and oper = ?oper]
      by auto
  qed
  show ?thesis
  proof (cases "last_conflict_was_read (ctx s)")
    case None
    show ?thesis
    proof (cases ?conflict)
      case False
      show ?thesis
      proof (cases "block (data rd (ctx s))")
        case (Some b)
        then show ?thesis using join False by blast
      next
        case nb: None
        show ?thesis
          using Apply_fresh [OF nb None False, where idx = idx and p = p]
            sched_inv_fresh [OF inv None nb, where keys = keys and oper = ?oper]
          by auto
      qed
    next
      case True
      from conflict_block [OF True] obtain ob where
        ob: "block (data (\<not> rd) (ctx s)) = Some ob" and r: "ob < length (heap s)" by blast
      show ?thesis
      proof (cases "block (data rd (ctx s))")
        case (Some b)
        have rb: "b < length (heap s)" using inv Some by (rule sched_inv_block_range)
        show ?thesis
          using Apply_first_conflict_join [OF None True ob r Some rb, where idx = idx and p = p]
            sched_inv_first_conflict_join [OF inv None ob Some, where keys = keys and oper = ?oper]
          by auto
      next
        case nb: None
        show ?thesis
          using Apply_first_conflict_fresh [OF None True ob r nb, where idx = idx and p = p]
            sched_inv_first_conflict_fresh [OF inv None ob nb, where keys = keys and oper = ?oper]
          by auto
      qed
    qed
  next
    case (Some l)
    show ?thesis
    proof (cases "l = rd")
      case True
      with Some sched_inv_Some [OF inv, of rd] obtain b where
        "block (data rd (ctx s)) = Some b" by auto
      then show ?thesis using join Some True by blast
    next
      case False
      then have l: "last_conflict_was_read (ctx s) = Some (\<not> rd)" using Some by auto
      from sched_inv_Some [OF inv l] obtain pre P L where
        cs: "cs = pre @ [P, L]" and L: "block (data (\<not> rd) (ctx s)) = Some L"
        and P: "block (data rd (ctx s)) = Some P" and ch: "is_chain (heap s) cs"
        by auto
      show ?thesis
      proof (cases ?conflict)
        case nc: False
        then show ?thesis using join P by blast
      next
        case c: True
        have r: "L < length (heap s)" using inv L by (rule sched_inv_block_range)
        have "next_block (heap s ! L) = None"
          using is_chain_last_next [OF ch] cs by simp
        then show ?thesis
          using Apply_flip [OF l c L r, where idx = idx and p = p] sched_inv_flip [OF inv l L, where keys = keys and oper = ?oper]
          by auto
      qed
    qed
  qed
qed

lemma Apply_all_sched_inv:
  assumes "sched_inv cs s"
  shows "\<exists>s' cs'. Apply_all calls s = Inr s' \<and> sched_inv cs' s' \<and> trace s' = trace s"
  using assms
proof (induction calls arbitrary: cs s)
  case Nil
  then show ?case by auto
next
  case (Cons call calls)
  obtain idx rd p keys where call: "call = (idx, rd, p, keys)"
    by (cases call)
  from Apply_sched_inv [OF Cons.prems, of idx rd p keys] obtain s1 cs1 where
    a: "Apply idx rd p keys s = Inr s1" and i: "sched_inv cs1 s1" and t: "trace s1 = trace s"
    by blast
  from Cons.IH [OF i] a t call show ?case by auto
qed

subsection \<open>No block gets a second successor\<close>

text \<open>
  C5. Every sequence of calls of \<^verbatim>\<open>BatchContext::Apply\<close> from the fresh context (any
  indices, kinds and key lists) runs without a null dereference and never logs at
  DFATAL: whenever \<^verbatim>\<open>Apply\<close> makes a fresh block for the kind of the last conflict,
  the \<^verbatim>\<open>SetNext\<close> on the opposite kind's open block returns the null pointer.
\<close>

theorem successor_absent:
  "\<exists>s. Apply_all calls init_state = Inr s \<and> LogDFatal \<notin> set (trace s)"
  using Apply_all_sched_inv [OF sched_inv_init, of calls]
  by (auto simp: init_state_def)


section \<open>Running a chain of blocks\<close>


lemma block_events_Nil [simp]: "block_events I []"
  by (simp add: block_events_def)

lemma block_events_append [simp]:
  "block_events I (u @ v) \<longleftrightarrow> block_events I u \<and> block_events I v"
  by (auto simp: block_events_def)

lemma block_events_mono: "block_events I u \<Longrightarrow> I \<subseteq> J \<Longrightarrow> block_events J u"
  by (auto simp: block_events_def)

lemma seq_trace_append:
  "seq_trace Is u \<Longrightarrow> seq_trace Js v \<Longrightarrow> seq_trace (Is @ Js) (u @ v)"
proof (induction Is arbitrary: u)
  case Nil
  then show ?case by simp
next
  case (Cons I Is)
  from Cons.prems(1) obtain u1 u2 where
    u: "u = u1 @ u2" and b: "block_trace I u1" and s: "seq_trace Is u2" by auto
  from Cons.IH [OF s Cons.prems(2)] have "seq_trace (Is @ Js) (u2 @ v)" .
  with u b show ?case by auto
qed

lemma seq_trace_snoc:
  "seq_trace Is u \<Longrightarrow> block_trace I v \<Longrightarrow> seq_trace (Is @ [I]) (u @ v)"
  by (rule seq_trace_append) auto


lemma apply_ops_events:
  assumes "apply_ops env os tr ok = (tr', ok')"
  shows "\<exists>evs. tr' = tr @ evs \<and> block_events (index ` set os) evs \<and>
           (\<not> ok' \<longrightarrow> (\<forall>oper \<in> set os. \<exists>r. Responded (index oper) r \<in> set evs))"
  using assms
proof (induction os arbitrary: tr ok)
  case Nil
  then show ?case by simp
next
  case (Cons oper rest)
  show ?case
  proof (cases "session_apply env tr oper")
    case None
    with Cons.prems have r: "apply_ops env rest (tr @ [Applied (index oper)]) True = (tr', ok')"
      by simp
    from Cons.IH [OF r] obtain evs where
      e: "tr' = (tr @ [Applied (index oper)]) @ evs" and b: "block_events (index ` set rest) evs"
      by blast
    from apply_ops_has_ok [of env rest "tr @ [Applied (index oper)]" True] r
    have ok': "ok'" by simp
    have "block_events (index ` set (oper # rest)) (Applied (index oper) # evs)"
      using b by (auto simp: block_events_def)
    with e ok' show ?thesis by (intro exI [of _ "Applied (index oper) # evs"]) simp
  next
    case (Some status)
    let ?evs0 = "[Applied (index oper), Responded (index oper) (Failure status)]"
    from Some Cons.prems have r: "apply_ops env rest (tr @ ?evs0) ok = (tr', ok')"
      by simp
    from Cons.IH [OF r] obtain evs where
      e: "tr' = (tr @ ?evs0) @ evs" and b: "block_events (index ` set rest) evs"
      and a: "\<not> ok' \<longrightarrow> (\<forall>oper \<in> set rest. \<exists>r. Responded (index oper) r \<in> set evs)"
      by blast
    have "block_events (index ` set (oper # rest)) (?evs0 @ evs)"
      using b by (auto simp: block_events_def)
    moreover have "\<not> ok' \<longrightarrow>
        (\<forall>x \<in> set (oper # rest). \<exists>r. Responded (index x) r \<in> set (?evs0 @ evs))"
      using a by auto
    ultimately show ?thesis using e by (intro exI [of _ "?evs0 @ evs"]) simp
  qed
qed

lemma done_responses_events:
  "block_trace (index ` set os) (done_responses env tr b os)"
  by (auto simp: block_trace_def block_events_def done_responses_def split: option.splits)

lemma block_trace_extend:
  "block_events I v \<Longrightarrow> block_trace I w \<Longrightarrow> block_trace I (v @ w)"
  by (auto simp: block_trace_def)

lemma is_chain_append: "is_chain h (xs @ ys) \<Longrightarrow> is_chain h ys"
  by (induction xs) auto



lemma chain_runI_waiting:
  assumes "cs = through @ b # rest" and "seq_trace (map (idxs h) through) u"
    and "block_events (idxs h b) v"
  shows "chain_run h cs tr0 (tr0 @ u @ v) [b]"
  unfolding chain_run_def using assms
  by (intro exI [of _ through] exI [of _ "b # rest"] exI [of _ u] exI [of _ v]) simp

lemma chain_runI_finished:
  assumes "seq_trace (map (idxs h) cs) u"
  shows "chain_run h cs tr0 (tr0 @ u) []"
  unfolding chain_run_def using assms
  by (intro exI [of _ cs] exI [of _ "[]"] exI [of _ u] exI [of _ "[]"]) simp

lemma Launch_chain:
  assumes "is_chain h (b # rest)"
    and "Launch fuel env h b (tr0 @ u, []) = Inr st"
    and "seq_trace (map (idxs h) through) u"
  shows "chain_run h (through @ b # rest) tr0 (fst st) (snd st)"
  using assms
proof (induction rest arbitrary: b through u fuel)
  case Nil
  from Nil.prems(2) obtain f where fuel: "fuel = Suc f"
    by (cases fuel) auto
  obtain tr1 ok where a: "apply_ops env (ops (h ! b)) (tr0 @ u) False = (tr1, ok)"
    by (cases "apply_ops env (ops (h ! b)) (tr0 @ u) False")
  from apply_ops_events [OF a] obtain evs where
    e: "tr1 = (tr0 @ u) @ evs" and be: "block_events (idxs h b) evs"
    and r: "\<not> ok \<longrightarrow> (\<forall>oper \<in> set (ops (h ! b)). \<exists>r. Responded (index oper) r \<in> set evs)"
    unfolding idxs_def by blast
  from Nil.prems(1) have nx: "next_block (h ! b) = None" and rg: "b < length h" by auto
  show ?case
  proof (cases ok)
    case True
    with Nil.prems(2) fuel a rg have "st = (tr1 @ [Flushed b], [b])"
      by (auto split: if_splits)
    then have "st = (tr0 @ u @ (evs @ [Flushed b]), [b])" using e by simp
    moreover have "block_events (idxs h b) (evs @ [Flushed b])"
      using be by (simp add: block_events_def)
    ultimately show ?thesis
      using chain_runI_waiting [of "through @ [b]" through b "[]" h u "evs @ [Flushed b]" tr0]
        Nil.prems(3) by simp
  next
    case False
    with Nil.prems(2) fuel a rg nx have st: "st = (tr1, [])"
      by (auto split: if_splits)
    have "block_trace (idxs h b) evs"
      using be r False by (auto simp: block_trace_def idxs_def)
    with Nil.prems(3) have "seq_trace (map (idxs h) (through @ [b])) (u @ evs)"
      using seq_trace_snoc by fastforce
    then show ?thesis
      using chain_runI_finished [of h "through @ [b]" "u @ evs" tr0] st e by simp
  qed
next
  case (Cons b2 rest)
  from Cons.prems(2) obtain f where fuel: "fuel = Suc f"
    by (cases fuel) auto
  obtain tr1 ok where a: "apply_ops env (ops (h ! b)) (tr0 @ u) False = (tr1, ok)"
    by (cases "apply_ops env (ops (h ! b)) (tr0 @ u) False")
  from apply_ops_events [OF a] obtain evs where
    e: "tr1 = (tr0 @ u) @ evs" and be: "block_events (idxs h b) evs"
    and r: "\<not> ok \<longrightarrow> (\<forall>oper \<in> set (ops (h ! b)). \<exists>r. Responded (index oper) r \<in> set evs)"
    unfolding idxs_def by blast
  from Cons.prems(1) have nx: "next_block (h ! b) = Some b2" and rg: "b < length h"
    and ch: "is_chain h (b2 # rest)" by auto
  show ?case
  proof (cases ok)
    case True
    with Cons.prems(2) fuel a rg have "st = (tr1 @ [Flushed b], [b])"
      by (auto split: if_splits)
    then have "st = (tr0 @ u @ (evs @ [Flushed b]), [b])" using e by simp
    moreover have "block_events (idxs h b) (evs @ [Flushed b])"
      using be by (simp add: block_events_def)
    ultimately show ?thesis
      using chain_runI_waiting [of "through @ b # b2 # rest" through b "b2 # rest" h u
          "evs @ [Flushed b]" tr0] Cons.prems(3) by simp
  next
    case False
    with Cons.prems(2) fuel a rg nx e have l: "Launch f env h b2 (tr0 @ (u @ evs), []) = Inr st"
      by (auto split: if_splits)
    have "block_trace (idxs h b) evs"
      using be r False by (auto simp: block_trace_def idxs_def)
    with Cons.prems(3) have "seq_trace (map (idxs h) (through @ [b])) (u @ evs)"
      using seq_trace_snoc by fastforce
    from Cons.IH [OF ch l this] show ?thesis by simp
  qed
qed

lemma Done_chain:
  assumes "is_chain h (b # rest)"
    and "Done fuel env h b (tr0 @ u @ v, []) = Inr st"
    and "seq_trace (map (idxs h) through) u"
    and "block_events (idxs h b) v"
  shows "chain_run h (through @ b # rest) tr0 (fst st) (snd st)"
proof -
  let ?w = "done_responses env (tr0 @ u @ v) b (ops (h ! b))"
  have bt: "block_trace (idxs h b) (v @ ?w)"
    using assms(4) done_responses_events [of "ops (h ! b)" env "tr0 @ u @ v" b]
    unfolding idxs_def by (rule block_trace_extend)
  with assms(3) have sq: "seq_trace (map (idxs h) (through @ [b])) (u @ v @ ?w)"
    using seq_trace_snoc by fastforce
  from assms(1) have rg: "b < length h" by simp
  show ?thesis
  proof (cases rest)
    case Nil
    with assms(1) have "next_block (h ! b) = None" by simp
    with assms(2) rg have "st = (tr0 @ (u @ v @ ?w), [])"
      by (simp add: Done_def)
    with sq Nil show ?thesis
      using chain_runI_finished [of h "through @ [b]" "u @ v @ ?w" tr0] by simp
  next
    case (Cons b2 rest')
    with assms(1) have nx: "next_block (h ! b) = Some b2" and ch: "is_chain h (b2 # rest')"
      by auto
    from assms(2) rg nx have l: "Launch fuel env h b2 (tr0 @ (u @ v @ ?w), []) = Inr st"
      by (simp add: Done_def)
    from Launch_chain [OF ch l sq] Cons show ?thesis by simp
  qed
qed

lemma run_chain:
  assumes "chain_run h cs tr0 (fst st) (snd st)" and "is_chain h cs"
    and "run fuel env h [] st = Inr tr"
  shows "\<exists>u. tr = tr0 @ u \<and> seq_trace (map (idxs h) cs) u"
  using assms
proof (induction fuel arbitrary: st)
  case 0
  obtain t pend where st: "st = (t, pend)" by (cases st)
  with "0.prems"(3) have p: "pend = []" and tr: "tr = t" by (auto split: if_splits)
  from "0.prems"(1) st obtain through rest u v where
    cs: "cs = through @ rest" and t: "t = tr0 @ u @ v"
    and sq: "seq_trace (map (idxs h) through) u"
    and rest: "case rest of [] \<Rightarrow> pend = [] \<and> v = []
               | b # rest' \<Rightarrow> pend = [b] \<and> block_events (idxs h b) v"
    by (auto simp: chain_run_def)
  from rest p have "rest = []" and "v = []" by (auto split: list.splits)
  with cs t sq tr show ?case by auto
next
  case (Suc fuel)
  obtain t pend where st: "st = (t, pend)" by (cases st)
  from Suc.prems(1) st obtain through rest u v where
    cs: "cs = through @ rest" and t: "t = tr0 @ u @ v"
    and sq: "seq_trace (map (idxs h) through) u"
    and rest: "case rest of [] \<Rightarrow> pend = [] \<and> v = []
               | b # rest' \<Rightarrow> pend = [b] \<and> block_events (idxs h b) v"
    by (auto simp: chain_run_def)
  show ?case
  proof (cases rest)
    case Nil
    with rest have "pend = []" "v = []" by auto
    with Suc.prems(3) st have "tr = t" by simp
    with t cs sq Nil \<open>v = []\<close> show ?thesis by auto
  next
    case (Cons b rest')
    with rest have pend: "pend = [b]" and be: "block_events (idxs h b) v" by auto
    have ns: "next_step env [] t [b] = Callback b"
      by (auto split: option.splits)
    from Suc.prems(2) cs Cons have ch: "is_chain h (b # rest')"
      using is_chain_append by blast
    from Suc.prems(3) st pend ns obtain st' where
      d: "Done fuel env h b (t, []) = Inr st'" and r: "run fuel env h [] st' = Inr tr"
      by (auto split: sum.splits)
    from Done_chain [OF ch d [unfolded t] sq be] cs Cons
    have "chain_run h cs tr0 (fst st') (snd st')" by simp
    from Suc.IH [OF this Suc.prems(2) r] show ?thesis .
  qed
qed

lemma run_chain_head:
  assumes "is_chain h (b # rest)"
    and "run fuel env h [b] (tr0, []) = Inr tr"
  shows "\<exists>u. tr = tr0 @ u \<and> seq_trace (map (idxs h) (b # rest)) u"
proof -
  from assms(2) obtain f where fuel: "fuel = Suc f"
    by (cases fuel) auto
  have ns: "next_step env [b] tr0 [] = MainThread b []"
    by (auto split: option.splits)
  from assms(2) fuel ns obtain st where
    l: "Launch f env h b (tr0 @ [], []) = Inr st" and r: "run f env h [] st = Inr tr"
    by (auto split: sum.splits)
  from Launch_chain [OF assms(1) l, of "[]"] have "chain_run h (b # rest) tr0 (fst st) (snd st)" by simp
  from run_chain [OF this assms(1) r] show ?thesis .
qed



lemma seq_trace_indices:
  assumes "seq_trace Is u" and "e \<in> set u" and "event_index e = Some i"
  shows "\<exists>k < length Is. i \<in> Is ! k"
  using assms
proof (induction Is arbitrary: u)
  case Nil
  then show ?case by simp
next
  case (Cons I Is)
  from Cons.prems(1) obtain u1 u2 where
    u: "u = u1 @ u2" and b: "block_trace I u1" and s: "seq_trace Is u2" by auto
  from Cons.prems(2) u consider "e \<in> set u1" | "e \<in> set u2" by auto
  then show ?case
  proof cases
    case 1
    with b Cons.prems(3) have "i \<in> I" by (auto simp: block_trace_def block_events_def)
    then show ?thesis by auto
  next
    case 2
    from Cons.IH [OF s 2 Cons.prems(3)] obtain k where "k < length Is" "i \<in> Is ! k" by blast
    then show ?thesis by (intro exI [of _ "Suc k"]) simp
  qed
qed

lemma append_eq_split_later:
  assumes "u1 @ u2 = a @ e # b" and "e \<notin> set u1"
  shows "\<exists>a'. a = u1 @ a' \<and> u2 = a' @ e # b"
  using assms
proof (induction u1 arbitrary: a)
  case Nil
  then show ?case by simp
next
  case (Cons x u1)
  from Cons.prems obtain a0 where a: "a = x # a0" and r: "u1 @ u2 = a0 @ e # b"
    by (cases a) auto
  from Cons.IH [OF r] Cons.prems(2) a show ?case by auto
qed

lemma seq_trace_order:
  assumes "seq_trace Is u" and "p < q" and "q < length Is"
    and "i \<in> Is ! p" and "j \<in> Is ! q"
    and "\<forall>x < length Is. \<forall>y < length Is. x \<noteq> y \<longrightarrow> Is ! x \<inter> Is ! y = {}"
    and "u = a @ e # b" and "event_index e = Some j"
  shows "(\<exists>r. Responded i r \<in> set a) \<and> (\<forall>e' \<in> set b. event_index e' \<noteq> Some i)"
  using assms
proof (induction Is arbitrary: u p q a)
  case Nil
  then show ?case by simp
next
  case (Cons I Is)
  from Cons.prems(1) obtain u1 u2 where
    u: "u = u1 @ u2" and bt: "block_trace I u1" and s: "seq_trace Is u2" by auto
  from Cons.prems(2,3) obtain q' where q: "q = Suc q'" and q': "q' < length Is"
    by (cases q) auto
  have disj: "(I # Is) ! x \<inter> (I # Is) ! y = {}"
    if "x < Suc (length Is)" "y < Suc (length Is)" "x \<noteq> y" for x y
    using Cons.prems(6) that by simp
  have j: "j \<in> Is ! q'" using Cons.prems(5) q by simp
  have "j \<notin> I" using disj [of 0 "Suc q'"] j q' by auto
  with bt Cons.prems(8) have "e \<notin> set u1"
    by (auto simp: block_trace_def block_events_def)
  with u Cons.prems(7) obtain a' where a: "a = u1 @ a'" and u2: "u2 = a' @ e # b"
    using append_eq_split_later [of u1 u2 a e b] by auto
  have disj': "\<forall>x < length Is. \<forall>y < length Is. x \<noteq> y \<longrightarrow> Is ! x \<inter> Is ! y = {}"
    using disj [of "Suc _" "Suc _"] by simp
  show ?case
  proof (cases p)
    case 0
    with Cons.prems(4) have i: "i \<in> I" by simp
    with bt obtain r where "Responded i r \<in> set u1" by (auto simp: block_trace_def)
    then have 1: "\<exists>r. Responded i r \<in> set a" using a by auto
    have 2: "event_index e' \<noteq> Some i" if "e' \<in> set b" for e'
    proof
      assume ei: "event_index e' = Some i"
      from that u2 have "e' \<in> set u2" by simp
      from seq_trace_indices [OF s this ei] obtain k where k: "k < length Is" "i \<in> Is ! k"
        by blast
      with disj [of 0 "Suc k"] i show False by auto
    qed
    from 1 2 show ?thesis by blast
  next
    case (Suc p')
    with Cons.prems(2,4) q have p': "p' < q'" and i: "i \<in> Is ! p'" by auto
    from Cons.IH [OF s p' q' i j disj' u2 Cons.prems(8)] a show ?thesis by auto
  qed
qed


section \<open>The order of conflicting operations\<close>

subsection \<open>Operations in the heap\<close>



lemma base_invD_sched:
  "base_inv env batch n os \<Longrightarrow> x < length os \<Longrightarrow> oper \<in> set (os ! x) \<Longrightarrow>
   index oper < n \<and>
   (\<exists>k. scheduled env (batch ! index oper) = Some (read oper, operation oper, [k]))"
  unfolding base_inv_def by blast

lemma base_invD_covered:
  "base_inv env batch n os \<Longrightarrow> i < n \<Longrightarrow> scheduled env (batch ! i) \<noteq> None \<Longrightarrow>
   \<exists>x < length os. i \<in> index ` set (os ! x)"
  unfolding base_inv_def by blast

lemma base_invD_disjoint:
  "base_inv env batch n os \<Longrightarrow> x < length os \<Longrightarrow> y < length os \<Longrightarrow> x \<noteq> y \<Longrightarrow>
   index ` set (os ! x) \<inter> index ` set (os ! y) = {}"
  unfolding base_inv_def by blast

lemma base_invD_kind:
  "base_inv env batch n os \<Longrightarrow> x < length os \<Longrightarrow> o1 \<in> set (os ! x) \<Longrightarrow>
   o2 \<in> set (os ! x) \<Longrightarrow> read o1 = read o2"
  unfolding base_inv_def by blast

lemma base_invI:
  assumes "\<And>x oper. x < length os \<Longrightarrow> oper \<in> set (os ! x) \<Longrightarrow>
      index oper < n \<and>
      (\<exists>k. scheduled env (batch ! index oper) = Some (read oper, operation oper, [k]))"
    and "\<And>i. i < n \<Longrightarrow> scheduled env (batch ! i) \<noteq> None \<Longrightarrow>
      \<exists>x < length os. i \<in> index ` set (os ! x)"
    and "\<And>x y. x < length os \<Longrightarrow> y < length os \<Longrightarrow> x \<noteq> y \<Longrightarrow>
      index ` set (os ! x) \<inter> index ` set (os ! y) = {}"
    and "\<And>x o1 o2. x < length os \<Longrightarrow> o1 \<in> set (os ! x) \<Longrightarrow> o2 \<in> set (os ! x) \<Longrightarrow>
      read o1 = read o2"
  shows "base_inv env batch n os"
  unfolding base_inv_def
  apply (intro conjI allI impI ballI)
  subgoal for b oper using assms(1) [of b oper] by simp
  subgoal for b oper using assms(1) [of b oper] by simp
  subgoal for i using assms(2) [of i] by simp
  subgoal for b1 b2 using assms(3) [of b1 b2] by simp
  subgoal for b o1 o2 using assms(4) [of b o1 o2] by simp
  done



lemma scheduled_key:
  "scheduled env c = Some (rd, p, [k]) \<Longrightarrow> GetBinary env p = Inr k"
  by (auto simp: scheduled_def split: option.splits if_splits sum.splits)

lemma base_inv_skip:
  assumes inv: "base_inv env batch n os" and "scheduled env (batch ! n) = None"
  shows "base_inv env batch (Suc n) os"
proof (rule base_invI)
  show "index oper < Suc n \<and>
      (\<exists>k. scheduled env (batch ! index oper) = Some (read oper, operation oper, [k]))"
    if "x < length os" "oper \<in> set (os ! x)" for x oper
    using base_invD_sched [OF inv that] by auto
  show "\<exists>x < length os. i \<in> index ` set (os ! x)"
    if "i < Suc n" "scheduled env (batch ! i) \<noteq> None" for i
  proof -
    from that assms(2) have "i < n" by (cases "i = n") auto
    with inv show ?thesis using that(2) by (rule base_invD_covered)
  qed
  show "index ` set (os ! x) \<inter> index ` set (os ! y) = {}"
    if "x < length os" "y < length os" "x \<noteq> y" for x y
    using inv that by (rule base_invD_disjoint)
  show "read o1 = read o2"
    if "x < length os" "o1 \<in> set (os ! x)" "o2 \<in> set (os ! x)" for x o1 o2
    using inv that by (rule base_invD_kind)
qed

lemma base_inv_add:
  assumes inv: "base_inv env batch n os"
    and sch: "scheduled env (batch ! n) = Some (rd, p, [k])"
    and b: "b < length os"
    and kind: "\<forall>oper \<in> set (os ! b). read oper = rd"
  shows "base_inv env batch (Suc n)
           (os[b := os ! b @ [\<lparr>read = rd, index = n, operation = p\<rparr>]])"
    (is "base_inv _ _ _ ?os'")
proof -
  let ?oper = "\<lparr>read = rd, index = n, operation = p\<rparr>"
  have nth: "?os' ! x = (if x = b then os ! b @ [?oper] else os ! x)" if "x < length os" for x
    using that b by (simp add: nth_list_update)
  have A: "index oper < n \<and>
      (\<exists>k. scheduled env (batch ! index oper) = Some (read oper, operation oper, [k]))"
    if "x < length os" "oper \<in> set (os ! x)" for x oper
    using inv that by (rule base_invD_sched)
  have A': "\<exists>x < length os. i \<in> index ` set (os ! x)"
    if "i < n" "scheduled env (batch ! i) \<noteq> None" for i
    using inv that by (rule base_invD_covered)
  have D: "index ` set (os ! x) \<inter> index ` set (os ! y) = {}"
    if "x < length os" "y < length os" "x \<noteq> y" for x y
    using inv that by (rule base_invD_disjoint)
  have H: "read o1 = read o2"
    if "x < length os" "o1 \<in> set (os ! x)" "o2 \<in> set (os ! x)" for x o1 o2
    using inv that by (rule base_invD_kind)
  have fresh: "n \<notin> index ` set (os ! x)" if "x < length os" for x
    using A [OF that] by auto
  have 1: "index oper < Suc n \<and>
      (\<exists>k. scheduled env (batch ! index oper) = Some (read oper, operation oper, [k]))"
    if "x < length ?os'" "oper \<in> set (?os' ! x)" for x oper
  proof (cases "oper = ?oper")
    case True
    then show ?thesis using sch by auto
  next
    case False
    with that nth [of x] have "oper \<in> set (os ! x)" by (auto split: if_splits)
    with A [of x oper] that show ?thesis by auto
  qed
  have 2: "\<exists>x < length ?os'. i \<in> index ` set (?os' ! x)"
    if "i < Suc n" "scheduled env (batch ! i) \<noteq> None" for i
  proof (cases "i = n")
    case True
    then have "i \<in> index ` set (?os' ! b)" using nth [OF b] by (simp add: image_iff)
    then show ?thesis using b by auto
  next
    case False
    with that A' [of i] obtain x where x: "x < length os" "i \<in> index ` set (os ! x)" by auto
    then have "i \<in> index ` set (?os' ! x)" using nth [of x] by auto
    with x show ?thesis by auto
  qed
  have 3: "index ` set (?os' ! x) \<inter> index ` set (?os' ! y) = {}"
    if "x < length ?os'" "y < length ?os'" "x \<noteq> y" for x y
    using that nth [of x] nth [of y] D [of x y] fresh [of x] fresh [of y]
    by (auto split: if_splits)
  have 4: "read o1 = read o2"
    if "x < length ?os'" "o1 \<in> set (?os' ! x)" "o2 \<in> set (?os' ! x)" for x o1 o2
    using that nth [of x] H [of x o1 o2] kind
    by (auto split: if_splits)
  show ?thesis
    using 1 2 3 4 by (rule base_invI)
qed

lemma base_inv_new:
  assumes inv: "base_inv env batch n os"
    and sch: "scheduled env (batch ! n) = Some (rd, p, [k])"
  shows "base_inv env batch (Suc n) (os @ [[\<lparr>read = rd, index = n, operation = p\<rparr>]])"
    (is "base_inv _ _ _ ?os'")
proof -
  let ?oper = "\<lparr>read = rd, index = n, operation = p\<rparr>"
  have nth: "?os' ! x = (if x = length os then [?oper] else os ! x)" if "x \<le> length os" for x
    using that by (simp add: nth_append)
  have len: "x < length ?os' \<longleftrightarrow> x < length os \<or> x = length os" for x
    by auto
  have A: "index oper < n \<and>
      (\<exists>k. scheduled env (batch ! index oper) = Some (read oper, operation oper, [k]))"
    if "x < length os" "oper \<in> set (os ! x)" for x oper
    using inv that by (rule base_invD_sched)
  have A': "\<exists>x < length os. i \<in> index ` set (os ! x)"
    if "i < n" "scheduled env (batch ! i) \<noteq> None" for i
    using inv that by (rule base_invD_covered)
  have D: "index ` set (os ! x) \<inter> index ` set (os ! y) = {}"
    if "x < length os" "y < length os" "x \<noteq> y" for x y
    using inv that by (rule base_invD_disjoint)
  have H: "read o1 = read o2"
    if "x < length os" "o1 \<in> set (os ! x)" "o2 \<in> set (os ! x)" for x o1 o2
    using inv that by (rule base_invD_kind)
  have fresh: "n \<notin> index ` set (os ! x)" if "x < length os" for x
    using A [OF that] by auto
  have 1: "index oper < Suc n \<and>
      (\<exists>k. scheduled env (batch ! index oper) = Some (read oper, operation oper, [k]))"
    if "x < length ?os'" "oper \<in> set (?os' ! x)" for x oper
  proof (cases "x = length os")
    case True
    with that nth [of x] show ?thesis using sch by auto
  next
    case False
    with that nth [of x] have "x < length os" "oper \<in> set (os ! x)" by auto
    with A [of x oper] show ?thesis by auto
  qed
  have 2: "\<exists>x < length ?os'. i \<in> index ` set (?os' ! x)"
    if "i < Suc n" "scheduled env (batch ! i) \<noteq> None" for i
  proof (cases "i = n")
    case True
    then have "i \<in> index ` set (?os' ! length os)" by simp
    then show ?thesis by (intro exI [of _ "length os"]) simp
  next
    case False
    with that A' [of i] obtain x where x: "x < length os" "i \<in> index ` set (os ! x)" by auto
    then have "i \<in> index ` set (?os' ! x)" using nth [of x] by auto
    with x show ?thesis by (intro exI [of _ x]) simp
  qed
  have 3: "index ` set (?os' ! x) \<inter> index ` set (?os' ! y) = {}"
    if xl: "x < length ?os'" and yl: "y < length ?os'" and ne: "x \<noteq> y" for x y
  proof -
    consider "x < length os" "y < length os" | "x = length os" "y < length os"
      | "x < length os" "y = length os"
      using xl yl ne by (auto simp: less_Suc_eq)
    then show ?thesis
    proof cases
      case 1
      with D [OF 1 ne] show ?thesis by (simp add: nth_append)
    next
      case 2
      with fresh [of y] show ?thesis by (simp add: nth_append)
    next
      case 3
      with fresh [of x] show ?thesis by (simp add: nth_append)
    qed
  qed
  have 4: "read o1 = read o2"
    if "x < length ?os'" "o1 \<in> set (?os' ! x)" "o2 \<in> set (?os' ! x)" for x o1 o2
  proof (cases "x = length os")
    case True
    with that show ?thesis by simp
  next
    case False
    with that have "x < length os" "o1 \<in> set (os ! x)" "o2 \<in> set (os ! x)"
      by (auto simp: nth_append)
    then show ?thesis by (rule H)
  qed
  show ?thesis
    using 1 2 3 4 by (rule base_invI)
qed



subsection \<open>One more operation\<close>


lemma conflicting_kinds: "conflicting env o1 o2 \<Longrightarrow> read o1 \<noteq> read o2"
  by (simp add: conflicting_def)

lemma conflicting_keys:
  "conflicting env o1 o2 \<Longrightarrow> \<exists>k. key_of env o1 = Inr k \<and> key_of env o2 = Inr k"
  by (auto simp: conflicting_def split: sum.splits)

lemma ext_update:
  assumes "b < length os" and "x < length (os[b := os ! b @ [oper]])"
  shows "set (os[b := os ! b @ [oper]] ! x) =
           (if x < length os then set (os ! x) else {}) \<union> (if x = b then {oper} else {})"
  using assms by (auto simp: nth_list_update)

lemma ext_append:
  assumes "x < length (os @ [[oper]])"
  shows "set ((os @ [[oper]]) ! x) =
           (if x < length os then set (os ! x) else {}) \<union> (if x = length os then {oper} else {})"
  using assms by (auto simp: nth_append less_Suc_eq)

lemma open_invD:
  "open_inv env bl uk os \<Longrightarrow> bl rd = Some b \<Longrightarrow> oper \<in> set (os ! b) \<Longrightarrow>
   read oper = rd \<and> (\<forall>k. key_of env oper = Inr k \<longrightarrow> k \<in> uk rd)"
  unfolding open_inv_def by blast

lemma open_inv_step:
  assumes inv: "open_inv env bl uk os"
    and ext: "\<And>x. x < length os' \<Longrightarrow>
       set (os' ! x) = (if x < length os then set (os ! x) else {}) \<union>
                       (if x = bx then {oper} else {})"
    and rng: "\<And>rd' x. bl rd' = Some x \<Longrightarrow> x < length os"
    and len: "length os \<le> length os'" and bxl: "bx < length os'"
    and bl': "\<And>rd'. bl' rd' = (if rd' = rd then Some bx else bl rd')"
    and other: "bl (\<not> rd) \<noteq> Some bx"
    and old: "bx < length os \<Longrightarrow> bl rd = Some bx \<and> uk rd \<subseteq> uk' rd"
    and uk': "uk' (\<not> rd) = uk (\<not> rd)"
    and kind: "read oper = rd" and key: "\<And>k. key_of env oper = Inr k \<Longrightarrow> k \<in> uk' rd"
  shows "open_inv env bl' uk' os'"
  unfolding open_inv_def
proof (intro allI impI ballI)
  fix rd' b o'
  assume b: "bl' rd' = Some b" and o': "o' \<in> set (os' ! b)"
  show "read o' = rd' \<and> (\<forall>k. key_of env o' = Inr k \<longrightarrow> k \<in> uk' rd')"
  proof (cases "rd' = rd")
    case True
    with b bl' have bx: "b = bx" by simp
    from o' bx ext [OF bxl] consider "o' = oper" | "bx < length os" "o' \<in> set (os ! bx)"
      by (auto split: if_splits)
    then show ?thesis
    proof cases
      case 1
      with kind key True show ?thesis by simp
    next
      case 2
      from old [OF 2(1)] have "bl rd = Some bx" and sub: "uk rd \<subseteq> uk' rd" by auto
      from open_invD [OF inv this(1) 2(2)] sub True show ?thesis by auto
    qed
  next
    case False
    then have rd': "rd' = (\<not> rd)" by auto
    with b bl' have bb: "bl (\<not> rd) = Some b" by simp
    with other have ne: "b \<noteq> bx" by auto
    from rng [OF bb] have bl: "b < length os" .
    with len have "b < length os'" by simp
    from ext [OF this] ne bl o' have "o' \<in> set (os ! b)" by simp
    from open_invD [OF inv bb this] rd' uk' show ?thesis by simp
  qed
qed

lemma no_conflicts_step:
  assumes inv: "no_conflicts env os"
    and ext: "\<And>x. x < length os' \<Longrightarrow>
       set (os' ! x) = (if x < length os then set (os ! x) else {}) \<union>
                       (if x = bx then {oper} else {})"
    and new: "\<And>x o'. x < length os \<Longrightarrow> o' \<in> set (os ! x) \<Longrightarrow>
       \<not> conflicting env o' oper \<and> \<not> conflicting env oper o'"
  shows "no_conflicts env os'"
  unfolding no_conflicts_def
proof (intro allI impI ballI)
  fix b1 b2 o1 o2
  assume b1: "b1 < length os'" and b2: "b2 < length os'"
    and o1: "o1 \<in> set (os' ! b1)" and o2: "o2 \<in> set (os' ! b2)"
  from o1 ext [OF b1] consider "o1 = oper" | "b1 < length os" "o1 \<in> set (os ! b1)"
    by (auto split: if_splits)
  then show "\<not> conflicting env o1 o2"
  proof cases
    case 1
    from o2 ext [OF b2] consider "o2 = oper" | "b2 < length os" "o2 \<in> set (os ! b2)"
      by (auto split: if_splits)
    then show ?thesis
    proof cases
      case 1
      with \<open>o1 = oper\<close> show ?thesis by (auto dest: conflicting_kinds)
    next
      case 2
      with new [OF 2] \<open>o1 = oper\<close> show ?thesis by simp
    qed
  next
    case 2
    note old1 = 2
    from o2 ext [OF b2] consider "o2 = oper" | "b2 < length os" "o2 \<in> set (os ! b2)"
      by (auto split: if_splits)
    then show ?thesis
    proof cases
      case 1
      with new [OF old1] show ?thesis by simp
    next
      case 2
      with inv old1 show ?thesis unfolding no_conflicts_def by blast
    qed
  qed
qed

lemma chain_ordered_step:
  assumes ext: "\<And>x. x < length os' \<Longrightarrow>
       set (os' ! x) = (if x < length os then set (os ! x) else {}) \<union>
                       (if x = bx then {oper} else {})"
    and rng: "\<And>p. p < length cs' \<Longrightarrow> cs' ! p < length os'"
    and idx: "\<And>x o'. x < length os \<Longrightarrow> o' \<in> set (os ! x) \<Longrightarrow> index o' < index oper"
    and old: "\<And>p q o1 o2. p < length cs' \<Longrightarrow> q < length cs' \<Longrightarrow>
       cs' ! p < length os \<Longrightarrow> cs' ! q < length os \<Longrightarrow>
       o1 \<in> set (os ! (cs' ! p)) \<Longrightarrow> o2 \<in> set (os ! (cs' ! q)) \<Longrightarrow>
       index o1 < index o2 \<Longrightarrow> conflicting env o1 o2 \<Longrightarrow> p < q"
    and new: "\<And>p q o1. p < length cs' \<Longrightarrow> q < length cs' \<Longrightarrow> cs' ! q = bx \<Longrightarrow>
       cs' ! p < length os \<Longrightarrow> o1 \<in> set (os ! (cs' ! p)) \<Longrightarrow>
       conflicting env o1 oper \<Longrightarrow> p < q"
  shows "chain_ordered env cs' os'"
  unfolding chain_ordered_def
proof (intro allI impI ballI)
  fix p q o1 o2
  assume p: "p < length cs'" and q: "q < length cs'"
    and o1: "o1 \<in> set (os' ! (cs' ! p))" and o2: "o2 \<in> set (os' ! (cs' ! q))"
    and lt: "index o1 < index o2" and c: "conflicting env o1 o2"
  from o2 ext [OF rng [OF q]] consider
    (new2) "o2 = oper" "cs' ! q = bx" | (old2) "cs' ! q < length os" "o2 \<in> set (os ! (cs' ! q))"
    by (auto split: if_splits)
  then show "p < q"
  proof cases
    case new2
    from o1 ext [OF rng [OF p]] consider
      "o1 = oper" | "cs' ! p < length os" "o1 \<in> set (os ! (cs' ! p))"
      by (auto split: if_splits)
    then show ?thesis
    proof cases
      case 1
      with new2 lt show ?thesis by simp
    next
      case 2
      from new [OF p q new2(2) 2] c new2(1) show ?thesis by simp
    qed
  next
    case old2
    from o1 ext [OF rng [OF p]] consider
      "o1 = oper" | "cs' ! p < length os" "o1 \<in> set (os ! (cs' ! p))"
      by (auto split: if_splits)
    then show ?thesis
    proof cases
      case 1
      with idx [OF old2] lt show ?thesis by simp
    next
      case 2
      from old [OF p q 2(1) old2(1) 2(2) old2(2) lt c] show ?thesis .
    qed
  qed
qed


subsection \<open>The order invariant on states\<close>


lemma map_ops_set_next [simp]:
  "map ops (h[ob := (h ! ob)\<lparr>next_block := x\<rparr>]) = map ops h"
  by (cases "ob < length h") (simp_all add: map_update list_update_beyond list_update_same_conv)

lemma map_ops_add:
  "b < length h \<Longrightarrow>
   map ops (h[b := (h ! b)\<lparr>ops := ops (h ! b) @ [oper]\<rparr>]) =
     (map ops h)[b := (map ops h ! b) @ [oper]]"
  by (simp add: map_update)

lemma ops_set_next [simp]:
  "ops (h[ob := (h ! ob)\<lparr>next_block := x\<rparr>] ! b) = ops (h ! b)"
  by (cases "ob < length h"; cases "b = ob") (simp_all add: list_update_beyond)

lemma order_invI:
  assumes "base_inv env batch n (map ops (heap s))"
    and "open_inv env (\<lambda>rd. block (data rd (ctx s))) (\<lambda>rd. used_keys (data rd (ctx s)))
           (map ops (heap s))"
    and "last_conflict_was_read (ctx s) = None \<Longrightarrow> no_conflicts env (map ops (heap s))"
    and "\<And>l. last_conflict_was_read (ctx s) = Some l \<Longrightarrow>
           chain_ordered env cs (map ops (heap s))"
  shows "order_inv env batch n cs s"
  using assms by (simp add: order_inv_def split: option.splits)

lemma order_inv_base: "order_inv env batch n cs s \<Longrightarrow> base_inv env batch n (map ops (heap s))"
  by (simp add: order_inv_def)

lemma order_inv_open:
  "order_inv env batch n cs s \<Longrightarrow>
   open_inv env (\<lambda>rd. block (data rd (ctx s))) (\<lambda>rd. used_keys (data rd (ctx s)))
     (map ops (heap s))"
  by (simp add: order_inv_def)

lemma order_inv_None:
  "order_inv env batch n cs s \<Longrightarrow> last_conflict_was_read (ctx s) = None \<Longrightarrow>
   no_conflicts env (map ops (heap s))"
  by (simp add: order_inv_def)

lemma order_inv_Some:
  "order_inv env batch n cs s \<Longrightarrow> last_conflict_was_read (ctx s) = Some l \<Longrightarrow>
   chain_ordered env cs (map ops (heap s))"
  by (simp add: order_inv_def)

text \<open>
  Before the first conflict, an operation whose key is not among the used keys of the
  opposite kind conflicts with no operation of the heap.
\<close>

lemma new_no_conflict:
  assumes oi: "open_inv env bl uk os"
    and every: "bl rd = Some x \<or> bl (\<not> rd) = Some x"
    and o': "o' \<in> set (os ! x)"
    and kind: "read oper = rd" and key: "key_of env oper = Inr k"
    and nk: "k \<notin> uk (\<not> rd)"
  shows "\<not> conflicting env o' oper \<and> \<not> conflicting env oper o'"
proof -
  from every show ?thesis
  proof
    assume "bl rd = Some x"
    from open_invD [OF oi this o'] kind have "read o' = read oper" by simp
    then show ?thesis by (auto dest: conflicting_kinds)
  next
    assume "bl (\<not> rd) = Some x"
    from open_invD [OF oi this o'] have k': "\<And>k'. key_of env o' = Inr k' \<Longrightarrow> k' \<in> uk (\<not> rd)"
      by simp
    have False if "\<exists>k'. key_of env o' = Inr k' \<and> key_of env oper = Inr k'"
      using that k' key nk by auto
    then show ?thesis using conflicting_keys [of env o' oper] conflicting_keys [of env oper o']
      by blast
  qed
qed



lemma chain_pos:
  assumes "distinct (pre @ [P, L])" and "q < length (pre @ [P, L])"
  shows "((pre @ [P, L]) ! q = L \<longleftrightarrow> q = Suc (length pre)) \<and>
         ((pre @ [P, L]) ! q = P \<longleftrightarrow> q = length pre)"
proof -
  consider "q < length pre" | "q = length pre" | "q = Suc (length pre)"
    using assms(2) by force
  then show ?thesis
  proof cases
    case 1
    then have "pre ! q \<in> set pre" by simp
    with assms(1) have "pre ! q \<noteq> L" "pre ! q \<noteq> P" by auto
    with 1 show ?thesis by (simp add: nth_append)
  next
    case 2
    with assms(1) show ?thesis by (auto simp: nth_append)
  next
    case 3
    with assms(1) show ?thesis by (auto simp: nth_append)
  qed
qed

lemma order_inv_join:
  assumes inv: "order_inv env batch n cs s" and sinv: "sched_inv cs s"
    and sch: "scheduled env (batch ! n) = Some (rd, p, [k])"
    and b: "block (data rd (ctx s)) = Some b"
    and c: "last_conflict_was_read (ctx s) = Some rd \<or>
            k \<notin> used_keys (data (\<not> rd) (ctx s))"
  shows "order_inv env batch (Suc n) cs
     (s\<lparr>ctx := RememberKeys rd [k] (ctx s),
        heap := (heap s)[b := (heap s ! b)\<lparr>ops := ops (heap s ! b) @
                   [\<lparr>read = rd, index = n, operation = p\<rparr>]\<rparr>]\<rparr>)"
    (is "order_inv _ _ _ _ ?s'")
proof -
  let ?oper = "\<lparr>read = rd, index = n, operation = p\<rparr>"
  let ?os = "map ops (heap s)"
  let ?os' = "?os[b := ?os ! b @ [?oper]]"
  let ?bl = "\<lambda>rd. block (data rd (ctx s))"
  let ?uk = "\<lambda>rd. used_keys (data rd (ctx s))"
  have bl: "b < length (heap s)" using sinv b by (rule sched_inv_block_range)
  have os': "map ops (heap ?s') = ?os'" using bl by (simp add: map_ops_add)
  have key: "key_of env ?oper = Inr k"
    using scheduled_key [OF sch] by (simp add: key_of_def)
  note base = order_inv_base [OF inv]
  note oi = order_inv_open [OF inv]
  have kind: "\<forall>oper \<in> set (?os ! b). read oper = rd"
    using open_invD [OF oi b] by blast
  have ext: "set (?os' ! x) = (if x < length ?os then set (?os ! x) else {}) \<union>
                              (if x = b then {?oper} else {})" if "x < length ?os'" for x
    using bl that by (intro ext_update) simp_all
  have idx: "index o' < index ?oper" if "x < length ?os" "o' \<in> set (?os ! x)" for x o'
    using base_invD_sched [OF base that] by simp
  have 1: "base_inv env batch (Suc n) (map ops (heap ?s'))"
    unfolding os' using base sch _ kind by (rule base_inv_add) (use bl in simp)
  have 2: "open_inv env (\<lambda>rd. block (data rd (ctx ?s'))) (\<lambda>rd. used_keys (data rd (ctx ?s')))
             (map ops (heap ?s'))"
    unfolding os'
  proof (rule open_inv_step [OF oi, where bx = b and rd = rd and oper = ?oper])
    show "set (?os' ! x) = (if x < length ?os then set (?os ! x) else {}) \<union>
                              (if x = b then {?oper} else {})" if "x < length ?os'" for x
      using that by (rule ext)
    show "x < length ?os" if "block (data rd' (ctx s)) = Some x" for rd' x
      using sched_inv_block_range [OF sinv that] by simp
    show "length ?os \<le> length ?os'" by simp
    show "b < length ?os'" using bl by simp
    show "block (data rd' (ctx ?s')) = (if rd' = rd then Some b else block (data rd' (ctx s)))"
      for rd' using b by simp
    show "block (data (\<not> rd) (ctx s)) \<noteq> Some b"
      using sinv b by (rule sched_inv_blocks_differ)
    show "block (data rd (ctx s)) = Some b \<and>
          used_keys (data rd (ctx s)) \<subseteq> used_keys (data rd (ctx ?s'))"
      using b by auto
    show "used_keys (data (\<not> rd) (ctx ?s')) = used_keys (data (\<not> rd) (ctx s))" by simp
    show "read ?oper = rd" by simp
    show "k' \<in> used_keys (data rd (ctx ?s'))" if "key_of env ?oper = Inr k'" for k'
      using that key by simp
  qed
  have 3: "no_conflicts env (map ops (heap ?s'))" if l: "last_conflict_was_read (ctx ?s') = None"
    unfolding os'
  proof (rule no_conflicts_step [where bx = b and oper = ?oper and os = ?os])
    from l have l0: "last_conflict_was_read (ctx s) = None" by simp
    with c have nk: "k \<notin> used_keys (data (\<not> rd) (ctx s))" by simp
    show "no_conflicts env ?os" using inv l0 by (rule order_inv_None)
    show "set (?os' ! x) = (if x < length ?os then set (?os ! x) else {}) \<union>
                              (if x = b then {?oper} else {})" if "x < length ?os'" for x
      using that by (rule ext)
    show "\<not> conflicting env o' ?oper \<and> \<not> conflicting env ?oper o'"
      if "x < length ?os" "o' \<in> set (?os ! x)" for x o'
    proof (rule new_no_conflict [OF oi _ that(2) _ key, where rd = rd])
      show "block (data rd (ctx s)) = Some x \<or> block (data (\<not> rd) (ctx s)) = Some x"
        using sched_inv_None_blocks [OF sinv l0, of x rd] that(1) by simp
      show "read ?oper = rd" by simp
      show "k \<notin> used_keys (data (\<not> rd) (ctx s))" by (rule nk)
    qed
  qed
  have 4: "chain_ordered env cs (map ops (heap ?s'))"
    if l': "last_conflict_was_read (ctx ?s') = Some l" for l
    unfolding os'
  proof (rule chain_ordered_step [where bx = b and oper = ?oper and os = ?os])
    from l' have l: "last_conflict_was_read (ctx s) = Some l" by simp
    from sched_inv_Some [OF sinv l] obtain pre P L where
      di: "distinct cs" and al: "set cs = {..<length (heap s)}"
      and cs: "cs = pre @ [P, L]" and L: "block (data l (ctx s)) = Some L"
      and P: "block (data (\<not> l) (ctx s)) = Some P"
      by auto
    note co = order_inv_Some [OF inv l]
    show "set (?os' ! x) = (if x < length ?os then set (?os ! x) else {}) \<union>
                              (if x = b then {?oper} else {})" if "x < length ?os'" for x
      using that by (rule ext)
    show "cs ! q < length ?os'" if "q < length cs" for q
      using al that nth_mem [OF that] by auto
    show "index o' < index ?oper" if "x < length ?os" "o' \<in> set (?os ! x)" for x o'
      using that by (rule idx)
    show "q1 < q2"
      if "q1 < length cs" "q2 < length cs" "cs ! q1 < length ?os" "cs ! q2 < length ?os"
        "o1 \<in> set (?os ! (cs ! q1))" "o2 \<in> set (?os ! (cs ! q2))"
        "index o1 < index o2" "conflicting env o1 o2" for q1 q2 o1 o2
      using co that unfolding chain_ordered_def by blast
    show "q1 < q2"
      if q1: "q1 < length cs" and q2: "q2 < length cs" and bq: "cs ! q2 = b"
        and "cs ! q1 < length ?os" and o1: "o1 \<in> set (?os ! (cs ! q1))"
        and cf: "conflicting env o1 ?oper" for q1 q2 o1
    proof (cases "l = rd")
      case True
      with L b have "b = L" by simp
      with bq chain_pos [OF di [unfolded cs] q2 [unfolded cs]] cs
      have q2': "q2 = Suc (length pre)" by simp
      have "cs ! q1 \<noteq> b"
      proof
        assume "cs ! q1 = b"
        with o1 kind have "read o1 = rd" by simp
        with cf show False by (auto dest: conflicting_kinds)
      qed
      with bq have "q1 \<noteq> q2" by auto
      with q1 q2' cs show ?thesis by simp
    next
      case False
      then have lr: "l = (\<not> rd)" by auto
      with P b have bP: "b = P" by simp
      with bq chain_pos [OF di [unfolded cs] q2 [unfolded cs]] cs
      have q2': "q2 = length pre" by simp
      from c l lr have nk: "k \<notin> used_keys (data (\<not> rd) (ctx s))" by simp
      have "cs ! q1 \<noteq> P"
      proof
        assume "cs ! q1 = P"
        with o1 kind bP have "read o1 = rd" by simp
        with cf show False by (auto dest: conflicting_kinds)
      qed
      moreover have "cs ! q1 \<noteq> L"
      proof
        assume q1L: "cs ! q1 = L"
        from L lr have "block (data (\<not> rd) (ctx s)) = Some L" by simp
        from open_invD [OF oi this] o1 q1L
        have "\<And>k'. key_of env o1 = Inr k' \<Longrightarrow> k' \<in> used_keys (data (\<not> rd) (ctx s))"
          by simp
        with conflicting_keys [OF cf] key nk show False by auto
      qed
      ultimately have "q1 \<noteq> length pre" "q1 \<noteq> Suc (length pre)"
        using chain_pos [OF di [unfolded cs] q1 [unfolded cs]] cs by auto
      with q1 q2' cs show ?thesis by simp
    qed
  qed
  from 1 2 3 4 show ?thesis by (rule order_invI)
qed



lemma order_inv_fresh:
  assumes inv: "order_inv env batch n cs s" and sinv: "sched_inv cs s"
    and sch: "scheduled env (batch ! n) = Some (rd, p, [k])"
    and l0: "last_conflict_was_read (ctx s) = None"
    and b: "block (data rd (ctx s)) = None"
    and nk: "k \<notin> used_keys (data (\<not> rd) (ctx s))"
  shows "order_inv env batch (Suc n) cs
     (s\<lparr>ctx := RememberKeys rd [k]
                 (set_data rd ((data rd (ctx s))\<lparr>block := Some (length (heap s))\<rparr>) (ctx s)),
        heap := heap s @ [\<lparr>ops = [\<lparr>read = rd, index = n, operation = p\<rparr>],
                          next_block = None\<rparr>]\<rparr>)"
    (is "order_inv _ _ _ _ ?s'")
proof -
  let ?oper = "\<lparr>read = rd, index = n, operation = p\<rparr>"
  let ?os = "map ops (heap s)"
  let ?os' = "?os @ [[?oper]]"
  have os': "map ops (heap ?s') = ?os'" by simp
  have key: "key_of env ?oper = Inr k"
    using scheduled_key [OF sch] by (simp add: key_of_def)
  note base = order_inv_base [OF inv]
  note oi = order_inv_open [OF inv]
  have ext: "set (?os' ! x) = (if x < length ?os then set (?os ! x) else {}) \<union>
                              (if x = length ?os then {?oper} else {})" if "x < length ?os'" for x
    using that by (rule ext_append)
  have 1: "base_inv env batch (Suc n) (map ops (heap ?s'))"
    unfolding os' using base sch by (rule base_inv_new)
  have 2: "open_inv env (\<lambda>rd. block (data rd (ctx ?s'))) (\<lambda>rd. used_keys (data rd (ctx ?s')))
             (map ops (heap ?s'))"
    unfolding os'
  proof (rule open_inv_step [OF oi, where bx = "length ?os" and rd = rd and oper = ?oper])
    show "set (?os' ! x) = (if x < length ?os then set (?os ! x) else {}) \<union>
                              (if x = length ?os then {?oper} else {})" if "x < length ?os'" for x
      using that by (rule ext)
    show r: "x < length ?os" if "block (data rd' (ctx s)) = Some x" for rd' x
      using sched_inv_block_range [OF sinv that] by simp
    show "length ?os \<le> length ?os'" by simp
    show "length ?os < length ?os'" by simp
    show "block (data rd' (ctx ?s')) =
            (if rd' = rd then Some (length ?os) else block (data rd' (ctx s)))"
      for rd' by (simp add: data_set_data_if)
    show "block (data (\<not> rd) (ctx s)) \<noteq> Some (length ?os)"
      using r [of "\<not> rd" "length ?os"] by auto
    show "block (data rd (ctx s)) = Some (length ?os) \<and>
          used_keys (data rd (ctx s)) \<subseteq> used_keys (data rd (ctx ?s'))"
      if "length ?os < length ?os" using that by simp
    show "used_keys (data (\<not> rd) (ctx ?s')) = used_keys (data (\<not> rd) (ctx s))" by simp
    show "read ?oper = rd" by simp
    show "k' \<in> used_keys (data rd (ctx ?s'))" if "key_of env ?oper = Inr k'" for k'
      using that key by simp
  qed
  have 3: "no_conflicts env (map ops (heap ?s'))"
    unfolding os'
  proof (rule no_conflicts_step [where bx = "length ?os" and oper = ?oper and os = ?os])
    show "no_conflicts env ?os" using inv l0 by (rule order_inv_None)
    show "set (?os' ! x) = (if x < length ?os then set (?os ! x) else {}) \<union>
                              (if x = length ?os then {?oper} else {})" if "x < length ?os'" for x
      using that by (rule ext)
    show "\<not> conflicting env o' ?oper \<and> \<not> conflicting env ?oper o'"
      if "x < length ?os" "o' \<in> set (?os ! x)" for x o'
    proof (rule new_no_conflict [OF oi _ that(2) _ key, where rd = rd])
      show "block (data rd (ctx s)) = Some x \<or> block (data (\<not> rd) (ctx s)) = Some x"
        using sched_inv_None_blocks [OF sinv l0, of x rd] that(1) by simp
      show "read ?oper = rd" by simp
      show "k \<notin> used_keys (data (\<not> rd) (ctx s))" by (rule nk)
    qed
  qed
  have 4: "chain_ordered env cs (map ops (heap ?s'))"
    if "last_conflict_was_read (ctx ?s') = Some l" for l
    using that l0 by simp
  from 1 2 3 4 show ?thesis by (rule order_invI)
qed


lemma chain_ordered_first:
  assumes nc: "no_conflicts env os"
    and ext: "\<And>x. x < length os' \<Longrightarrow>
       set (os' ! x) = (if x < length os then set (os ! x) else {}) \<union>
                       (if x = bx then {oper} else {})"
    and ob: "ob < length os" and bx: "bx < length os'" and ne: "ob \<noteq> bx"
    and len: "length os \<le> length os'"
    and idx: "\<And>x o'. x < length os \<Longrightarrow> o' \<in> set (os ! x) \<Longrightarrow> index o' < index oper"
    and kind: "\<And>o'. bx < length os \<Longrightarrow> o' \<in> set (os ! bx) \<Longrightarrow> read o' = read oper"
  shows "chain_ordered env [ob, bx] os'"
proof (rule chain_ordered_step [where bx = bx and oper = oper and os = os])
  show "set (os' ! x) = (if x < length os then set (os ! x) else {}) \<union>
                       (if x = bx then {oper} else {})" if "x < length os'" for x
    using that by (rule ext)
  show "[ob, bx] ! q < length os'" if "q < length [ob, bx]" for q
    using that ob bx len by (cases q) auto
  show "index o' < index oper" if "x < length os" "o' \<in> set (os ! x)" for x o'
    using that by (rule idx)
  show "q1 < q2"
    if "q1 < length [ob, bx]" "q2 < length [ob, bx]" "[ob, bx] ! q1 < length os"
      "[ob, bx] ! q2 < length os" "o1 \<in> set (os ! ([ob, bx] ! q1))"
      "o2 \<in> set (os ! ([ob, bx] ! q2))" "index o1 < index o2" "conflicting env o1 o2"
    for q1 q2 o1 o2
    using nc that unfolding no_conflicts_def by blast
  show "q1 < q2"
    if q1: "q1 < length [ob, bx]" and q2: "q2 < length [ob, bx]" and bq: "[ob, bx] ! q2 = bx"
      and r: "[ob, bx] ! q1 < length os" and o1: "o1 \<in> set (os ! ([ob, bx] ! q1))"
      and cf: "conflicting env o1 oper" for q1 q2 o1
  proof -
    from q2 bq ne have q2': "q2 = 1" by (cases q2) auto
    have "q1 \<noteq> 1"
    proof
      assume "q1 = 1"
      with r o1 have "bx < length os" "o1 \<in> set (os ! bx)" by simp_all
      from kind [OF this] cf show False by (auto dest: conflicting_kinds)
    qed
    with q1 q2' show ?thesis by simp
  qed
qed



lemma order_inv_first_conflict_join:
  assumes inv: "order_inv env batch n cs s" and sinv: "sched_inv cs s"
    and sch: "scheduled env (batch ! n) = Some (rd, p, [k])"
    and l0: "last_conflict_was_read (ctx s) = None"
    and ob: "block (data (\<not> rd) (ctx s)) = Some ob"
    and b: "block (data rd (ctx s)) = Some b"
  shows "order_inv env batch (Suc n) [ob, b]
     (s\<lparr>ctx := RememberKeys rd [k]
                     ((ctx s)\<lparr>flush_head := Some ob, last_conflict_was_read := Some rd\<rparr>),
            heap := ((heap s)[ob := (heap s ! ob)\<lparr>next_block := Some b\<rparr>])
                      [b := ((heap s)[ob := (heap s ! ob)\<lparr>next_block := Some b\<rparr>] ! b)
                              \<lparr>ops := ops ((heap s)[ob := (heap s ! ob)\<lparr>next_block := Some b\<rparr>] ! b) @
                                 [\<lparr>read = rd, index = n, operation = p\<rparr>]\<rparr>]\<rparr>)"
    (is "order_inv _ _ _ _ ?s'")
proof -
  let ?oper = "\<lparr>read = rd, index = n, operation = p\<rparr>"
  let ?os = "map ops (heap s)"
  let ?os' = "?os[b := ?os ! b @ [?oper]]"
  have bl: "b < length (heap s)" using sinv b by (rule sched_inv_block_range)
  have obl: "ob < length (heap s)" using sinv ob by (rule sched_inv_block_range)
  have ne: "ob \<noteq> b" using sched_inv_blocks_differ [OF sinv b] ob by auto
  have os': "map ops (heap ?s') = ?os'"
  proof -
    let ?h1 = "(heap s)[ob := (heap s ! ob)\<lparr>next_block := Some b\<rparr>]"
    have h1: "map ops ?h1 = ?os" by (rule map_ops_set_next)
    have "b < length ?h1" using bl by simp
    from map_ops_add [OF this, of ?oper] show ?thesis
      unfolding h1 by simp
  qed
  have key: "key_of env ?oper = Inr k"
    using scheduled_key [OF sch] by (simp add: key_of_def)
  note base = order_inv_base [OF inv]
  note oi = order_inv_open [OF inv]
  have kind: "\<forall>oper \<in> set (?os ! b). read oper = rd"
    using open_invD [OF oi b] by blast
  have ext: "set (?os' ! x) = (if x < length ?os then set (?os ! x) else {}) \<union>
                              (if x = b then {?oper} else {})" if "x < length ?os'" for x
    using bl that by (intro ext_update) simp_all
  have idx: "index o' < index ?oper" if "x < length ?os" "o' \<in> set (?os ! x)" for x o'
    using base_invD_sched [OF base that] by simp
  have 1: "base_inv env batch (Suc n) (map ops (heap ?s'))"
    unfolding os' using base sch _ kind by (rule base_inv_add) (use bl in simp)
  have 2: "open_inv env (\<lambda>rd. block (data rd (ctx ?s'))) (\<lambda>rd. used_keys (data rd (ctx ?s')))
             (map ops (heap ?s'))"
    unfolding os'
  proof (rule open_inv_step [OF oi, where bx = b and rd = rd and oper = ?oper])
    show "set (?os' ! x) = (if x < length ?os then set (?os ! x) else {}) \<union>
                              (if x = b then {?oper} else {})" if "x < length ?os'" for x
      using that by (rule ext)
    show "x < length ?os" if "block (data rd' (ctx s)) = Some x" for rd' x
      using sched_inv_block_range [OF sinv that] by simp
    show "length ?os \<le> length ?os'" by simp
    show "b < length ?os'" using bl by simp
    show "block (data rd' (ctx ?s')) = (if rd' = rd then Some b else block (data rd' (ctx s)))"
      for rd' using b by simp
    show "block (data (\<not> rd) (ctx s)) \<noteq> Some b"
      using sinv b by (rule sched_inv_blocks_differ)
    show "block (data rd (ctx s)) = Some b \<and>
          used_keys (data rd (ctx s)) \<subseteq> used_keys (data rd (ctx ?s'))"
      using b by auto
    show "used_keys (data (\<not> rd) (ctx ?s')) = used_keys (data (\<not> rd) (ctx s))" by simp
    show "read ?oper = rd" by simp
    show "k' \<in> used_keys (data rd (ctx ?s'))" if "key_of env ?oper = Inr k'" for k'
      using that key by simp
  qed
  have 3: "no_conflicts env (map ops (heap ?s'))" if "last_conflict_was_read (ctx ?s') = None"
    using that by simp
  have 4: "chain_ordered env [ob, b] (map ops (heap ?s'))"
    if "last_conflict_was_read (ctx ?s') = Some l" for l
    unfolding os'
  proof (rule chain_ordered_first [where os = ?os and oper = ?oper])
    show "no_conflicts env ?os" using inv l0 by (rule order_inv_None)
    show "set (?os' ! x) = (if x < length ?os then set (?os ! x) else {}) \<union>
                              (if x = b then {?oper} else {})" if "x < length ?os'" for x
      using that by (rule ext)
    show "ob < length ?os" using obl by simp
    show "b < length ?os'" using bl by simp
    show "ob \<noteq> b" by (rule ne)
    show "length ?os \<le> length ?os'" by simp
    show "index o' < index ?oper" if "x < length ?os" "o' \<in> set (?os ! x)" for x o'
      using that by (rule idx)
    show "read o' = read ?oper" if "b < length ?os" "o' \<in> set (?os ! b)" for o'
      using that kind by simp
  qed
  from 1 2 3 4 show ?thesis by (rule order_invI)
qed

lemma order_inv_first_conflict_fresh:
  assumes inv: "order_inv env batch n cs s" and sinv: "sched_inv cs s"
    and sch: "scheduled env (batch ! n) = Some (rd, p, [k])"
    and l0: "last_conflict_was_read (ctx s) = None"
    and ob: "block (data (\<not> rd) (ctx s)) = Some ob"
    and b: "block (data rd (ctx s)) = None"
  shows "order_inv env batch (Suc n) [ob, length (heap s)]
     (s\<lparr>ctx := RememberKeys rd [k]
                     (set_data rd ((data rd (ctx s))\<lparr>block := Some (length (heap s))\<rparr>)
                        ((ctx s)\<lparr>flush_head := Some ob, last_conflict_was_read := Some rd\<rparr>)),
            heap := (heap s)[ob := (heap s ! ob)\<lparr>next_block := Some (length (heap s))\<rparr>] @
                      [\<lparr>ops = [\<lparr>read = rd, index = n, operation = p\<rparr>], next_block = None\<rparr>]\<rparr>)"
    (is "order_inv _ _ _ _ ?s'")
proof -
  let ?oper = "\<lparr>read = rd, index = n, operation = p\<rparr>"
  let ?os = "map ops (heap s)"
  let ?os' = "?os @ [[?oper]]"
  have obl: "ob < length (heap s)" using sinv ob by (rule sched_inv_block_range)
  have os': "map ops (heap ?s') = ?os'" by simp
  have key: "key_of env ?oper = Inr k"
    using scheduled_key [OF sch] by (simp add: key_of_def)
  note base = order_inv_base [OF inv]
  note oi = order_inv_open [OF inv]
  have ext: "set (?os' ! x) = (if x < length ?os then set (?os ! x) else {}) \<union>
                              (if x = length ?os then {?oper} else {})" if "x < length ?os'" for x
    using that by (rule ext_append)
  have idx: "index o' < index ?oper" if "x < length ?os" "o' \<in> set (?os ! x)" for x o'
    using base_invD_sched [OF base that] by simp
  have 1: "base_inv env batch (Suc n) (map ops (heap ?s'))"
    unfolding os' using base sch by (rule base_inv_new)
  have 2: "open_inv env (\<lambda>rd. block (data rd (ctx ?s'))) (\<lambda>rd. used_keys (data rd (ctx ?s')))
             (map ops (heap ?s'))"
    unfolding os'
  proof (rule open_inv_step [OF oi, where bx = "length ?os" and rd = rd and oper = ?oper])
    show "set (?os' ! x) = (if x < length ?os then set (?os ! x) else {}) \<union>
                              (if x = length ?os then {?oper} else {})" if "x < length ?os'" for x
      using that by (rule ext)
    show r: "x < length ?os" if "block (data rd' (ctx s)) = Some x" for rd' x
      using sched_inv_block_range [OF sinv that] by simp
    show "length ?os \<le> length ?os'" by simp
    show "length ?os < length ?os'" by simp
    show "block (data rd' (ctx ?s')) =
            (if rd' = rd then Some (length ?os) else block (data rd' (ctx s)))"
      for rd' by (simp add: data_set_data_if)
    show "block (data (\<not> rd) (ctx s)) \<noteq> Some (length ?os)"
      using r [of "\<not> rd" "length ?os"] by auto
    show "block (data rd (ctx s)) = Some (length ?os) \<and>
          used_keys (data rd (ctx s)) \<subseteq> used_keys (data rd (ctx ?s'))"
      if "length ?os < length ?os" using that by simp
    show "used_keys (data (\<not> rd) (ctx ?s')) = used_keys (data (\<not> rd) (ctx s))" by simp
    show "read ?oper = rd" by simp
    show "k' \<in> used_keys (data rd (ctx ?s'))" if "key_of env ?oper = Inr k'" for k'
      using that key by simp
  qed
  have 3: "no_conflicts env (map ops (heap ?s'))" if "last_conflict_was_read (ctx ?s') = None"
    using that by simp
  have 4: "chain_ordered env [ob, length (heap s)] (map ops (heap ?s'))"
    if "last_conflict_was_read (ctx ?s') = Some l" for l
    unfolding os'
  proof (rule chain_ordered_first [where os = ?os and oper = ?oper])
    show "no_conflicts env ?os" using inv l0 by (rule order_inv_None)
    show "set (?os' ! x) = (if x < length ?os then set (?os ! x) else {}) \<union>
                              (if x = length (heap s) then {?oper} else {})"
      if "x < length ?os'" for x
      using ext [OF that] by simp
    show "ob < length ?os" using obl by simp
    show "length (heap s) < length ?os'" by simp
    show "ob \<noteq> length (heap s)" using obl by simp
    show "length ?os \<le> length ?os'" by simp
    show "index o' < index ?oper" if "x < length ?os" "o' \<in> set (?os ! x)" for x o'
      using that by (rule idx)
    show "read o' = read ?oper" if "length (heap s) < length ?os" for o'
      using that by simp
  qed
  from 1 2 3 4 show ?thesis by (rule order_invI)
qed

lemma order_inv_flip:
  assumes inv: "order_inv env batch n cs s" and sinv: "sched_inv cs s"
    and sch: "scheduled env (batch ! n) = Some (rd, p, [k])"
    and l: "last_conflict_was_read (ctx s) = Some (\<not> rd)"
    and ob: "block (data (\<not> rd) (ctx s)) = Some ob"
  shows "order_inv env batch (Suc n) (cs @ [length (heap s)])
     (s\<lparr>ctx := RememberKeys rd [k]
                     (set_data rd \<lparr>used_keys = {}, block = Some (length (heap s))\<rparr>
                        ((ctx s)\<lparr>last_conflict_was_read := Some rd\<rparr>)),
            heap := (heap s)[ob := (heap s ! ob)\<lparr>next_block := Some (length (heap s))\<rparr>] @
                      [\<lparr>ops = [\<lparr>read = rd, index = n, operation = p\<rparr>], next_block = None\<rparr>],
            trace := tr'\<rparr>)"
    (is "order_inv _ _ _ _ ?s'")
proof -
  let ?oper = "\<lparr>read = rd, index = n, operation = p\<rparr>"
  let ?os = "map ops (heap s)"
  let ?os' = "?os @ [[?oper]]"
  let ?cs' = "cs @ [length (heap s)]"
  have os': "map ops (heap ?s') = ?os'" by simp
  have key: "key_of env ?oper = Inr k"
    using scheduled_key [OF sch] by (simp add: key_of_def)
  note base = order_inv_base [OF inv]
  note oi = order_inv_open [OF inv]
  from sched_inv_Some [OF sinv l] have al: "set cs = {..<length (heap s)}" by simp
  have csr: "cs ! q < length (heap s)" if "q < length cs" for q
    using al nth_mem [OF that] by auto
  have ext: "set (?os' ! x) = (if x < length ?os then set (?os ! x) else {}) \<union>
                              (if x = length ?os then {?oper} else {})" if "x < length ?os'" for x
    using that by (rule ext_append)
  have idx: "index o' < index ?oper" if "x < length ?os" "o' \<in> set (?os ! x)" for x o'
    using base_invD_sched [OF base that] by simp
  have 1: "base_inv env batch (Suc n) (map ops (heap ?s'))"
    unfolding os' using base sch by (rule base_inv_new)
  have 2: "open_inv env (\<lambda>rd. block (data rd (ctx ?s'))) (\<lambda>rd. used_keys (data rd (ctx ?s')))
             (map ops (heap ?s'))"
    unfolding os'
  proof (rule open_inv_step [OF oi, where bx = "length ?os" and rd = rd and oper = ?oper])
    show "set (?os' ! x) = (if x < length ?os then set (?os ! x) else {}) \<union>
                              (if x = length ?os then {?oper} else {})" if "x < length ?os'" for x
      using that by (rule ext)
    show r: "x < length ?os" if "block (data rd' (ctx s)) = Some x" for rd' x
      using sched_inv_block_range [OF sinv that] by simp
    show "length ?os \<le> length ?os'" by simp
    show "length ?os < length ?os'" by simp
    show "block (data rd' (ctx ?s')) =
            (if rd' = rd then Some (length ?os) else block (data rd' (ctx s)))"
      for rd' by (simp add: data_set_data_if)
    show "block (data (\<not> rd) (ctx s)) \<noteq> Some (length ?os)"
      using r [of "\<not> rd" "length ?os"] by auto
    show "block (data rd (ctx s)) = Some (length ?os) \<and>
          used_keys (data rd (ctx s)) \<subseteq> used_keys (data rd (ctx ?s'))"
      if "length ?os < length ?os" using that by simp
    show "used_keys (data (\<not> rd) (ctx ?s')) = used_keys (data (\<not> rd) (ctx s))" by simp
    show "read ?oper = rd" by simp
    show "k' \<in> used_keys (data rd (ctx ?s'))" if "key_of env ?oper = Inr k'" for k'
      using that key by simp
  qed
  have 3: "no_conflicts env (map ops (heap ?s'))" if "last_conflict_was_read (ctx ?s') = None"
    using that by simp
  have 4: "chain_ordered env ?cs' (map ops (heap ?s'))"
    if "last_conflict_was_read (ctx ?s') = Some l'" for l'
    unfolding os'
  proof (rule chain_ordered_step [where bx = "length ?os" and oper = ?oper and os = ?os])
    note co = order_inv_Some [OF inv l]
    show "set (?os' ! x) = (if x < length ?os then set (?os ! x) else {}) \<union>
                              (if x = length ?os then {?oper} else {})" if "x < length ?os'" for x
      using that by (rule ext)
    show "?cs' ! q < length ?os'" if "q < length ?cs'" for q
      using that csr [of q] by (cases "q < length cs") (auto simp: nth_append)
    show "index o' < index ?oper" if "x < length ?os" "o' \<in> set (?os ! x)" for x o'
      using that by (rule idx)
    have pos: "q < length cs" if "q < length ?cs'" "?cs' ! q < length ?os" for q
      using that by (cases "q < length cs") (auto simp: nth_append)
    show "q1 < q2"
      if q1: "q1 < length ?cs'" and q2: "q2 < length ?cs'"
        and r1: "?cs' ! q1 < length ?os" and r2: "?cs' ! q2 < length ?os"
        and o1: "o1 \<in> set (?os ! (?cs' ! q1))" and o2: "o2 \<in> set (?os ! (?cs' ! q2))"
        and lt: "index o1 < index o2" and cf: "conflicting env o1 o2" for q1 q2 o1 o2
    proof -
      from pos [OF q1 r1] pos [OF q2 r2] have a: "q1 < length cs" "q2 < length cs" .
      with o1 o2 have "o1 \<in> set (?os ! (cs ! q1))" "o2 \<in> set (?os ! (cs ! q2))"
        by (simp_all add: nth_append)
      with co a lt cf show ?thesis unfolding chain_ordered_def by blast
    qed
    show "q1 < q2"
      if q1: "q1 < length ?cs'" and q2: "q2 < length ?cs'" and bq: "?cs' ! q2 = length ?os"
        and r1: "?cs' ! q1 < length ?os" for q1 q2 o1
    proof -
      from pos [OF q1 r1] have "q1 < length cs" .
      moreover have "q2 = length cs"
      proof (rule ccontr)
        assume "q2 \<noteq> length cs"
        with q2 have "q2 < length cs" by simp
        with csr [OF this] bq show False by (simp add: nth_append)
      qed
      ultimately show ?thesis by simp
    qed
  qed
  from 1 2 3 4 show ?thesis by (rule order_invI)
qed



lemma sched_inv_trace [simp]: "sched_inv cs (s\<lparr>trace := t\<rparr>) = sched_inv cs s"
  by (simp add: sched_inv_def cong: option.case_cong)

lemma order_inv_trace [simp]:
  "order_inv env batch n cs (s\<lparr>trace := t\<rparr>) = order_inv env batch n cs s"
  by (simp add: order_inv_def cong: option.case_cong)

lemma scheduled_safe:
  "safe_batch env \<Longrightarrow> scheduled env c = Some (rd, p, keys) \<Longrightarrow> \<exists>k. keys = [k]"
  by (auto simp: scheduled_def split: option.splits if_splits sum.splits)

lemma Apply_order_inv:
  assumes sinv: "sched_inv cs s" and inv: "order_inv env batch n cs s"
    and sch: "scheduled env (batch ! n) = Some (rd, p, [k])"
  shows "\<exists>s' cs'. Apply n rd p [k] s = Inr s' \<and> sched_inv cs' s' \<and>
           order_inv env batch (Suc n) cs' s' \<and> trace s' = trace s"
proof -
  let ?conflict = "list_ex (\<lambda>key. key \<in> used_keys (data (\<not> rd) (ctx s))) [k]"
  let ?oper = "\<lparr>read = rd, index = n, operation = p\<rparr>"
  have cf: "?conflict \<longleftrightarrow> k \<in> used_keys (data (\<not> rd) (ctx s))" by simp
  have conflict_block: "\<exists>ob. block (data (\<not> rd) (ctx s)) = Some ob \<and> ob < length (heap s)"
    if "?conflict"
  proof -
    from that have "used_keys (data (\<not> rd) (ctx s)) \<noteq> {}" by (rule list_ex_used_keys)
    with sinv obtain ob where "block (data (\<not> rd) (ctx s)) = Some ob"
      using sched_inv_used_keys by blast
    with sinv show ?thesis using sched_inv_block_range by blast
  qed
  have join: ?thesis
    if b: "block (data rd (ctx s)) = Some b"
      and c: "last_conflict_was_read (ctx s) = Some rd \<or> \<not> ?conflict" for b
  proof -
    have r: "b < length (heap s)" using sinv b by (rule sched_inv_block_range)
    from c cf have c': "last_conflict_was_read (ctx s) = Some rd \<or>
        k \<notin> used_keys (data (\<not> rd) (ctx s))" by simp
    show ?thesis
      using Apply_join [OF b r c, where idx = n and p = p]
        sched_inv_join [OF sinv b, where keys = "[k]" and oper = ?oper]
        order_inv_join [OF inv sinv sch b c']
      by auto
  qed
  show ?thesis
  proof (cases "last_conflict_was_read (ctx s)")
    case None
    show ?thesis
    proof (cases ?conflict)
      case False
      with cf have nk: "k \<notin> used_keys (data (\<not> rd) (ctx s))" by simp
      show ?thesis
      proof (cases "block (data rd (ctx s))")
        case (Some b)
        then show ?thesis using join False by blast
      next
        case nb: None
        show ?thesis
          using Apply_fresh [OF nb None False, where idx = n and p = p]
            sched_inv_fresh [OF sinv None nb, where keys = "[k]" and oper = ?oper]
            order_inv_fresh [OF inv sinv sch None nb nk]
          by auto
      qed
    next
      case True
      from conflict_block [OF True] obtain ob where
        ob: "block (data (\<not> rd) (ctx s)) = Some ob" and r: "ob < length (heap s)" by blast
      show ?thesis
      proof (cases "block (data rd (ctx s))")
        case (Some b)
        have rb: "b < length (heap s)" using sinv Some by (rule sched_inv_block_range)
        show ?thesis
          using Apply_first_conflict_join [OF None True ob r Some rb, where idx = n and p = p]
            sched_inv_first_conflict_join [OF sinv None ob Some, where keys = "[k]" and oper = ?oper]
            order_inv_first_conflict_join [OF inv sinv sch None ob Some]
          by auto
      next
        case nb: None
        show ?thesis
          using Apply_first_conflict_fresh [OF None True ob r nb, where idx = n and p = p]
            sched_inv_first_conflict_fresh [OF sinv None ob nb, where keys = "[k]" and oper = ?oper]
            order_inv_first_conflict_fresh [OF inv sinv sch None ob nb]
          by auto
      qed
    qed
  next
    case (Some l)
    show ?thesis
    proof (cases "l = rd")
      case True
      with Some sched_inv_Some [OF sinv, of rd] obtain b where
        "block (data rd (ctx s)) = Some b" by auto
      then show ?thesis using join Some True by blast
    next
      case False
      then have l: "last_conflict_was_read (ctx s) = Some (\<not> rd)" using Some by auto
      from sched_inv_Some [OF sinv l] obtain pre P L where
        cs: "cs = pre @ [P, L]" and L: "block (data (\<not> rd) (ctx s)) = Some L"
        and P: "block (data rd (ctx s)) = Some P" and ch: "is_chain (heap s) cs"
        by auto
      show ?thesis
      proof (cases ?conflict)
        case nc: False
        then show ?thesis using join P by blast
      next
        case c: True
        have r: "L < length (heap s)" using sinv L by (rule sched_inv_block_range)
        have nx: "next_block (heap s ! L) = None"
          using is_chain_last_next [OF ch] cs by simp
        show ?thesis
          using Apply_flip [OF l c L r, where idx = n and p = p]
            sched_inv_flip [OF sinv l L, where keys = "[k]" and oper = ?oper]
            order_inv_flip [OF inv sinv sch l L, where tr' = "trace s"] nx
          by auto
      qed
    qed
  qed
qed



lemma for_loop_invariant_indexed:
  assumes "P lo s"
    and "for_loop body lo n s = Inr s'"
    and "\<And>i t t'. lo \<le> i \<Longrightarrow> i < lo + n \<Longrightarrow> P i t \<Longrightarrow> body i t = Inr t' \<Longrightarrow> P (Suc i) t'"
  shows "P (lo + n) s'"
  using assms
proof (induction n arbitrary: lo s)
  case 0
  then show ?case by simp
next
  case (Suc n)
  from Suc.prems(2) obtain t where t: "body lo s = Inr t" and r: "for_loop body (Suc lo) n t = Inr s'"
    by (auto split: sum.splits)
  have "P (Suc lo) t" using Suc.prems(3) [of lo s t] Suc.prems(1) t by simp
  moreover have "P (Suc i) u'" if "Suc lo \<le> i" "i < Suc lo + n" "P i u" "body i u = Inr u'" for i u u'
    using Suc.prems(3) [of i u u'] that by simp
  ultimately have "P (Suc lo + n) s'" using Suc.IH [of "Suc lo" t] r by blast
  then show ?case by simp
qed

lemma order_inv_init: "order_inv env batch 0 [] init_state"
  by (simp add: order_inv_def base_inv_def open_inv_def no_conflicts_def
      init_state_def init_context_def data_def)

lemma Handle_command_order_inv:
  assumes safe: "safe_batch env" and n: "n < length batch"
    and sinv: "sched_inv cs s" and inv: "order_inv env batch n cs s"
    and h: "Handle_command env batch n s = Inr s'"
  shows "\<exists>cs'. sched_inv cs' s' \<and> order_inv env batch (Suc n) cs' s'"
proof (cases "scheduled env (batch ! n)")
  case None
  from Handle_command_not_scheduled [OF n None h] obtain r where
    s': "s' = s\<lparr>trace := trace s @ [Responded n r]\<rparr>" by blast
  have "order_inv env batch (Suc n) cs s"
    using inv base_inv_skip [OF order_inv_base [OF inv] None]
    by (simp add: order_inv_def)
  with sinv s' show ?thesis by auto
next
  case (Some x)
  obtain rd p keys where x: "x = (rd, p, keys)" by (cases x)
  with Some scheduled_safe [OF safe, of "batch ! n" rd p keys] obtain k where
    sch: "scheduled env (batch ! n) = Some (rd, p, [k])" by auto
  from Handle_command_scheduled [OF n sch] h have "Apply n rd p [k] s = Inr s'" by simp
  with Apply_order_inv [OF sinv inv sch] show ?thesis by auto
qed

lemma Handle_dispatch_order_inv:
  assumes safe: "safe_batch env"
    and h: "Handle_dispatch env batch = Inr (True, s)"
  shows "\<exists>cs. sched_inv cs s \<and> order_inv env batch (length batch) cs s"
proof -
  from h have l: "for_loop (Handle_command env batch) 0 (length batch) init_state = Inr s"
    by (auto simp: Handle_dispatch_def split: option.splits sum.splits)
  let ?P = "\<lambda>n t. \<exists>cs. sched_inv cs t \<and> order_inv env batch n cs t"
  have "?P (0 + length batch) s"
  proof (rule for_loop_invariant_indexed [where P = ?P, OF _ l])
    show "?P 0 init_state" using sched_inv_init order_inv_init by blast
    show "?P (Suc i) t'"
      if "0 \<le> i" "i < 0 + length batch" "?P i t" "Handle_command env batch i t = Inr t'"
      for i t t'
      using that Handle_command_order_inv [OF safe, of i batch _ t t'] by auto
  qed
  then show ?thesis by simp
qed



lemma heap_operation:
  assumes base: "base_inv env batch n (map ops h)"
    and i: "i < n" and sch: "scheduled env (batch ! i) = Some (rd, p, [k])"
  shows "\<exists>b oper. b < length h \<and> oper \<in> set (ops (h ! b)) \<and> index oper = i \<and>
           read oper = rd \<and> key_of env oper = Inr k"
proof -
  from base_invD_covered [OF base i] sch obtain b where
    b: "b < length (map ops h)" and "i \<in> index ` set (map ops h ! b)" by auto
  then obtain oper where o: "oper \<in> set (map ops h ! b)" and io: "index oper = i" by auto
  from base_invD_sched [OF base b o] io sch
  have "read oper = rd" "operation oper = p" by auto
  with scheduled_key [OF sch] have "key_of env oper = Inr k" by (simp add: key_of_def)
  with b o io \<open>read oper = rd\<close> show ?thesis by auto
qed

subsection \<open>Responses before conflicting submissions\<close>

text \<open>
  C3. With safe batching on, let the commands at batch indices \<open>i < j\<close> both reach the
  scheduler, one as a READ and one as a WRITE, with the same key \<open>k\<close>. Then in the
  trace of the whole batch, wherever the operation of \<open>j\<close> is applied to its session
  (\<open>Applied j\<close>), a response at index \<open>i\<close> has been emitted before, and nothing about
  \<open>i\<close> (no response, no apply) comes after.
\<close>

theorem safe_batch_order:
  assumes safe: "safe_batch env"
    and run: "Handle fuel env batch = Inr tr"
    and ij: "i < j" and j: "j < length batch"
    and si: "scheduled env (batch ! i) = Some (rdi, pi, [k])"
    and sj: "scheduled env (batch ! j) = Some (rdj, pj, [k])"
    and opp: "rdi \<noteq> rdj"
    and split: "tr = a @ Applied j # b"
  shows "(\<exists>r. Responded i r \<in> set a) \<and> (\<forall>r. Responded i r \<notin> set b) \<and> Applied i \<notin> set b"
proof -
  from run obtain committed s where
    hd: "Handle_dispatch env batch = Inr (committed, s)"
    by (auto simp: Handle_def split: sum.splits)
  have tr0: "list_all (dispatch_event batch) (trace s)"
    using hd by (rule Handle_dispatch_events)
  then have na: "Applied j \<notin> set (trace s)"
    by (auto simp: list_all_iff)
  have committed
  proof (rule ccontr)
    assume "\<not> committed"
    with run hd have "tr = trace s" by (simp add: Handle_def)
    with na split show False by simp
  qed
  with run hd have r: "run fuel env (heap s) (Commit_launches (ctx s)) (trace s, []) = Inr tr"
    by (simp add: Handle_def)
  from Handle_dispatch_order_inv [OF safe] hd \<open>committed\<close> obtain cs where
    sinv: "sched_inv cs s" and inv: "order_inv env batch (length batch) cs s" by auto
  note base = order_inv_base [OF inv]
  from ij j have i: "i < length batch" by simp
  from heap_operation [OF base i si] obtain bi oi where
    bi: "bi < length (heap s)" and oi: "oi \<in> set (ops (heap s ! bi))"
    and ii: "index oi = i" and ri: "read oi = rdi" and ki: "key_of env oi = Inr k" by blast
  from heap_operation [OF base j sj] obtain bj oj where
    bj: "bj < length (heap s)" and oj: "oj \<in> set (ops (heap s ! bj))"
    and ij': "index oj = j" and rj: "read oj = rdj" and kj: "key_of env oj = Inr k" by blast
  have cf: "conflicting env oi oj"
    using ri rj opp ki kj by (simp add: conflicting_def)
  show ?thesis
  proof (cases "last_conflict_was_read (ctx s)")
    case None
    from order_inv_None [OF inv None] bi bj oi oj cf show ?thesis
      unfolding no_conflicts_def by auto
  next
    case (Some l)
    from sched_inv_Some [OF sinv Some] obtain pre P L where
      ch: "is_chain (heap s) cs" and di: "distinct cs"
      and al: "set cs = {..<length (heap s)}" and cs: "cs = pre @ [P, L]"
      and fh: "flush_head (ctx s) = Some (hd cs)" by auto
    have "cs \<noteq> []" using cs by simp
    then obtain c0 rest where cs': "cs = c0 # rest" by (auto simp: neq_Nil_conv)
    with fh have cl: "Commit_launches (ctx s) = [c0]" by (simp add: Commit_launches_def)
    from run_chain_head [OF ch [unfolded cs'] r [unfolded cl]] cs' obtain u where
      tr: "tr = trace s @ u" and sq: "seq_trace (map (idxs (heap s)) cs) u" by auto
    from bi al have "bi \<in> set cs" by simp
    then obtain p where p: "p < length cs" and cp: "cs ! p = bi"
      by (auto simp: in_set_conv_nth)
    from bj al have "bj \<in> set cs" by simp
    then obtain q where q: "q < length cs" and cq: "cs ! q = bj"
      by (auto simp: in_set_conv_nth)
    have pq: "p < q"
      using order_inv_Some [OF inv Some] p q oi oj cp cq bi bj ii ij' ij cf
      unfolding chain_ordered_def by auto
    from tr split na obtain a' where a: "a = trace s @ a'" and u: "u = a' @ Applied j # b"
      using append_eq_split_later [of "trace s" u a "Applied j" b] by auto
    have disj: "\<forall>x < length (map (idxs (heap s)) cs). \<forall>y < length (map (idxs (heap s)) cs).
        x \<noteq> y \<longrightarrow> map (idxs (heap s)) cs ! x \<inter> map (idxs (heap s)) cs ! y = {}"
    proof (intro allI impI)
      fix x y
      assume x: "x < length (map (idxs (heap s)) cs)" and y: "y < length (map (idxs (heap s)) cs)"
        and ne: "x \<noteq> y"
      from x y ne di have "cs ! x \<noteq> cs ! y" by (simp add: nth_eq_iff_index_eq)
      moreover from x y al have "cs ! x < length (heap s)" "cs ! y < length (heap s)"
        using nth_mem [of x cs] nth_mem [of y cs] by auto
      ultimately show "map (idxs (heap s)) cs ! x \<inter> map (idxs (heap s)) cs ! y = {}"
        using base_invD_disjoint [OF base, of "cs ! x" "cs ! y"] x y
        by (simp add: idxs_def)
    qed
    have "(\<exists>r. Responded i r \<in> set a') \<and> (\<forall>e' \<in> set b. event_index e' \<noteq> Some i)"
    proof (rule seq_trace_order [OF sq pq _ _ _ disj u])
      show "q < length (map (idxs (heap s)) cs)" using q by simp
      show "i \<in> map (idxs (heap s)) cs ! p" using p cp oi ii by (auto simp: idxs_def)
      show "j \<in> map (idxs (heap s)) cs ! q" using q cq oj ij' by (auto simp: idxs_def)
      show "event_index (Applied j) = Some j" by simp
    qed
    with a show ?thesis by fastforce
  qed
qed



lemma Handle_example_set_get:
  "Handle 3 example_env [[''set'', ''k'', ''v''], [''get'', ''k'']] =
     Inr ([Applied 0, Flushed 0, Responded 0 (Success \<lparr>string_response = Some ''k''\<rparr>)] @
          Applied 1 # [Flushed 1, Responded 1 (Success \<lparr>string_response = Some ''k''\<rparr>)])"
  by code_simp

theorem safe_batch_order_witness:
  "safe_batch example_env \<and>
   Handle 3 example_env [[''set'', ''k'', ''v''], [''get'', ''k'']] =
     Inr ([Applied 0, Flushed 0, Responded 0 (Success \<lparr>string_response = Some ''k''\<rparr>)] @
          Applied 1 # [Flushed 1, Responded 1 (Success \<lparr>string_response = Some ''k''\<rparr>)]) \<and>
   (\<exists>r. Responded 0 r \<in>
      set [Applied 0, Flushed 0, Responded 0 (Success \<lparr>string_response = Some ''k''\<rparr>)]) \<and>
   (\<forall>r. Responded 0 r \<notin>
      set [Flushed 1, Responded 1 (Success \<lparr>string_response = Some ''k''\<rparr>)]) \<and>
   Applied 0 \<notin> set [Flushed 1, Responded 1 (Success \<lparr>string_response = Some ''k''\<rparr>)]"
proof -
  have safe: "safe_batch example_env" by (simp add: example_env_def)
  have si: "scheduled example_env ([[''set'', ''k'', ''v''], [''get'', ''k'']] ! 0) =
      Some (False, ''k'', [''k''])"
    using scheduled_example_set by simp
  have sj: "scheduled example_env ([[''set'', ''k'', ''v''], [''get'', ''k'']] ! 1) =
      Some (True, ''k'', [''k''])"
    using scheduled_example_get by simp
  from safe_batch_order [OF safe Handle_example_set_get _ _ si sj]
  have "(\<exists>r. Responded 0 r \<in>
      set [Applied 0, Flushed 0, Responded 0 (Success \<lparr>string_response = Some ''k''\<rparr>)]) \<and>
   (\<forall>r. Responded 0 r \<notin>
      set [Flushed 1, Responded 1 (Success \<lparr>string_response = Some ''k''\<rparr>)]) \<and>
   Applied 0 \<notin> set [Flushed 1, Responded 1 (Success \<lparr>string_response = Some ''k''\<rparr>)]"
    by simp
  with safe Handle_example_set_get show ?thesis by blast
qed


section \<open>The batch comes to an end\<close>

subsection \<open>A chain\<close>


lemma Launch_returns:
  assumes "is_chain h (b # rest)" and "\<forall>x \<in> set (b # rest). ops (h ! x) \<noteq> []"
    and "length (b # rest) \<le> fuel"
  shows "\<exists>st. Launch fuel env h b (tr, pend) = Inr st"
  using assms
proof (induction rest arbitrary: b fuel tr)
  case Nil
  from Nil.prems(3) obtain f where fuel: "fuel = Suc f" by (cases fuel) auto
  from Nil.prems(1,2) have "b < length h" "ops (h ! b) \<noteq> []" "next_block (h ! b) = None"
    by auto
  with fuel show ?case by (auto split: prod.splits)
next
  case (Cons b2 rest)
  from Cons.prems(3) obtain f where fuel: "fuel = Suc f" and f: "length (b2 # rest) \<le> f"
    by (cases fuel) auto
  from Cons.prems(1,2) have b: "b < length h" "ops (h ! b) \<noteq> []" "next_block (h ! b) = Some b2"
    and ch: "is_chain h (b2 # rest)" and ne: "\<forall>x \<in> set (b2 # rest). ops (h ! x) \<noteq> []"
    by auto
  obtain tr1 ok where a: "apply_ops env (ops (h ! b)) tr False = (tr1, ok)"
    by (cases "apply_ops env (ops (h ! b)) tr False")
  from Cons.IH [OF ch ne f, of tr1] obtain st where "Launch f env h b2 (tr1, pend) = Inr st"
    by blast
  with fuel b a show ?case by auto
qed

lemma Launch_pending:
  assumes "is_chain h (b # rest)" and "Launch fuel env h b (tr, []) = Inr (tr', pend')"
  shows "pend' = [] \<or> (\<exists>through b' rest'. b # rest = through @ b' # rest' \<and> pend' = [b'])"
proof -
  from Launch_chain [OF assms(1), of fuel env tr "[]" "(tr', pend')" "[]"] assms(2)
  have "chain_run h (b # rest) tr tr' pend'" by simp
  then obtain through rest1 u v where
    cs: "b # rest = through @ rest1"
    and r: "case rest1 of [] \<Rightarrow> pend' = [] \<and> v = []
            | b' # rest' \<Rightarrow> pend' = [b'] \<and> block_events (idxs h b') v"
    unfolding chain_run_def by blast
  show ?thesis
  proof (cases rest1)
    case Nil
    with r show ?thesis by simp
  next
    case (Cons b' rest')
    with r cs show ?thesis by auto
  qed
qed

lemma run_finished: "run fuel env h [] (tr, []) = Inr tr"
  by (cases fuel) simp_all

lemma run_returns_chain:
  assumes "is_chain h (b # rest)" and "\<forall>x \<in> set (b # rest). ops (h ! x) \<noteq> []"
    and "2 * length (b # rest) \<le> fuel"
  shows "\<exists>tr'. run fuel env h [] (tr, [b]) = Inr tr'"
  using assms
proof (induction "length rest" arbitrary: b rest fuel tr rule: less_induct)
  case less
  from less.prems(3) obtain f where fuel: "fuel = Suc f" and f: "2 * length rest < f"
    by (cases fuel) auto
  have ns: "next_step env [] tr [b] = Callback b"
    by (auto split: option.splits)
  from less.prems(1) have bl: "b < length h" by simp
  let ?tr1 = "tr @ done_responses env tr b (ops (h ! b))"
  show ?case
  proof (cases rest)
    case Nil
    with less.prems(1) have "next_block (h ! b) = None" by simp
    with bl have "Done f env h b (tr, []) = Inr (?tr1, [])" by (simp add: Done_def)
    with fuel ns show ?thesis by (simp add: run_finished)
  next
    case (Cons b2 rest2)
    with less.prems(1,2) have nx: "next_block (h ! b) = Some b2"
      and ch: "is_chain h (b2 # rest2)" and ne: "\<forall>x \<in> set (b2 # rest2). ops (h ! x) \<noteq> []"
      by auto
    from f Cons have "length (b2 # rest2) \<le> f" by simp
    from Launch_returns [OF ch ne this, of env ?tr1 "[]"] obtain tr2 pend2 where
      l: "Launch f env h b2 (?tr1, []) = Inr (tr2, pend2)" by (cases) auto
    with bl nx have d: "Done f env h b (tr, []) = Inr (tr2, pend2)" by (simp add: Done_def)
    from Launch_pending [OF ch l] show ?thesis
    proof
      assume "pend2 = []"
      with fuel ns d show ?thesis by (simp add: run_finished)
    next
      assume "\<exists>through b' rest'. b2 # rest2 = through @ b' # rest' \<and> pend2 = [b']"
      then obtain through b' rest' where
        sp: "b2 # rest2 = through @ b' # rest'" and p: "pend2 = [b']" by blast
      from sp have len: "length (b' # rest') \<le> length (b2 # rest2)"
        by (metis length_append le_add2)
      with Cons have lt: "length rest' < length rest" by simp
      from ch sp have ch': "is_chain h (b' # rest')" using is_chain_append by metis
      from ne sp have ne': "\<forall>x \<in> set (b' # rest'). ops (h ! x) \<noteq> []"
        by (metis Un_iff set_append)
      from len f Cons have "2 * length (b' # rest') \<le> f" by simp
      from less.hyps [OF lt ch' ne' this, of tr2] obtain tr' where
        "run f env h [] (tr2, [b']) = Inr tr'" by blast
      with fuel ns d p show ?thesis by simp
    qed
  qed
qed

lemma run_returns_head:
  assumes "is_chain h (b # rest)" and "\<forall>x \<in> set (b # rest). ops (h ! x) \<noteq> []"
    and "2 * length (b # rest) < fuel"
  shows "\<exists>tr'. run fuel env h [b] (tr, []) = Inr tr'"
proof -
  from assms(3) obtain f where fuel: "fuel = Suc f" and f: "2 * length (b # rest) \<le> f"
    by (cases fuel) auto
  have ns: "next_step env [b] tr [] = MainThread b []"
    by (auto split: option.splits)
  from f have "length (b # rest) \<le> f" by simp
  from Launch_returns [OF assms(1,2) this, of env tr "[]"] obtain tr2 pend2 where
    l: "Launch f env h b (tr, []) = Inr (tr2, pend2)" by (cases) auto
  from Launch_pending [OF assms(1) l] show ?thesis
  proof
    assume "pend2 = []"
    with fuel ns l show ?thesis by (simp add: run_finished)
  next
    assume "\<exists>through b' rest'. b # rest = through @ b' # rest' \<and> pend2 = [b']"
    then obtain through b' rest' where
      sp: "b # rest = through @ b' # rest'" and p: "pend2 = [b']" by blast
    from sp have len: "length (b' # rest') \<le> length (b # rest)"
      by (metis length_append le_add2)
    from assms(1) sp have ch': "is_chain h (b' # rest')" using is_chain_append by metis
    from assms(2) sp have ne': "\<forall>x \<in> set (b' # rest'). ops (h ! x) \<noteq> []"
      by (metis Un_iff set_append)
    from len f have "2 * length (b' # rest') \<le> f" by simp
    from run_returns_chain [OF ch' ne' this, of env tr2] obtain tr' where
      "run f env h [] (tr2, [b']) = Inr tr'" by blast
    with fuel ns l p show ?thesis by simp
  qed
qed


subsection \<open>Blocks without successors\<close>


lemma next_step_cases:
  "(next_step env main tr pend = Idle \<longrightarrow> main = [] \<and> pend = []) \<and>
   (\<forall>b rest. next_step env main tr pend = MainThread b rest \<longrightarrow> main = b # rest) \<and>
   (\<forall>b. next_step env main tr pend = Callback b \<longrightarrow> b \<in> set pend)"
  by (cases "(env, main, tr, pend)" rule: next_step.cases)
    (auto split: option.splits if_splits)

lemma Launch_flat:
  assumes "b < length h" and "ops (h ! b) \<noteq> []" and "next_block (h ! b) = None"
  shows "\<exists>tr1. Launch (Suc fuel) env h b (tr, pend) = Inr (tr1, pend) \<or>
               Launch (Suc fuel) env h b (tr, pend) = Inr (tr1, pend @ [b])"
  using assms by (auto split: prod.splits)

lemma Done_flat:
  assumes "b < length h" and "next_block (h ! b) = None"
  shows "\<exists>tr1. Done fuel env h b (tr, pend) = Inr (tr1, pend)"
  using assms by (simp add: Done_def)

lemma run_returns_flat:
  assumes "\<forall>b \<in> set main \<union> set pend.
             b < length h \<and> ops (h ! b) \<noteq> [] \<and> next_block (h ! b) = None"
    and "2 * length main + length pend < fuel"
  shows "\<exists>tr'. run fuel env h main (tr, pend) = Inr tr'"
  using assms
proof (induction fuel arbitrary: main pend tr)
  case 0
  then show ?case by simp
next
  case (Suc fuel)
  note ns = next_step_cases [of env main tr pend]
  show ?case
  proof (cases "next_step env main tr pend")
    case Idle
    then show ?thesis by simp
  next
    case (MainThread b rest)
    with ns have main: "main = b # rest" by simp
    with Suc.prems(2) obtain f where fuel: "fuel = Suc f" by (cases fuel) auto
    from Suc.prems(1) main have b: "b < length h" "ops (h ! b) \<noteq> []" "next_block (h ! b) = None"
      by auto
    from Launch_flat [OF b, of f env tr pend] obtain tr1 pend1 where
      l: "Launch fuel env h b (tr, pend) = Inr (tr1, pend1)"
      and p: "pend1 = pend \<or> pend1 = pend @ [b]"
      unfolding fuel by blast
    from p Suc.prems(1) main have 1: "\<forall>x \<in> set rest \<union> set pend1.
        x < length h \<and> ops (h ! x) \<noteq> [] \<and> next_block (h ! x) = None" by auto
    from p Suc.prems(2) main have 2: "2 * length rest + length pend1 < fuel" by auto
    from Suc.IH [OF 1 2, of tr1] MainThread l show ?thesis by simp
  next
    case (Callback b)
    with ns have bp: "b \<in> set pend" by simp
    with Suc.prems(1) have b: "b < length h" "next_block (h ! b) = None" by auto
    from Done_flat [OF b, of fuel env tr "remove1 b pend"] obtain tr1 where
      d: "Done fuel env h b (tr, remove1 b pend) = Inr (tr1, remove1 b pend)" by blast
    have "set (remove1 b pend) \<subseteq> set pend" by (rule set_remove1_subset)
    with Suc.prems(1) have 1: "\<forall>x \<in> set main \<union> set (remove1 b pend).
        x < length h \<and> ops (h ! x) \<noteq> [] \<and> next_block (h ! x) = None" by auto
    from bp have "length (remove1 b pend) < length pend"
      by (simp add: length_remove1) (cases pend; simp)
    with Suc.prems(2) have 2: "2 * length main + length (remove1 b pend) < fuel" by simp
    from Suc.IH [OF 1 2, of tr1] Callback d show ?thesis by simp
  qed
qed


subsection \<open>The dispatcher\<close>


lemma SetNext_length: "SetNext b n h = Inr (old, h') \<Longrightarrow> length h' = length h"
  by (auto simp: SetNext_def split: if_splits)

lemma ConflictFound_length: "ConflictFound rd s = Inr s' \<Longrightarrow> length (heap s') = length (heap s)"
  by (auto simp: ConflictFound_def split: option.splits sum.splits dest: SetNext_length)

lemma CheckConflicts_length:
  "CheckConflicts rd keys s = Inr s' \<Longrightarrow> length (heap s') = length (heap s)"
  by (auto simp: CheckConflicts_def split: if_splits dest: ConflictFound_length)

lemma acquire_block_length:
  "acquire_block rd s = Inr (b, s') \<Longrightarrow> length (heap s') \<le> Suc (length (heap s))"
  by (auto simp: acquire_block_def Let_def split: option.splits sum.splits if_splits
      dest: SetNext_length)

lemma AddOperation_length: "AddOperation b oper h = Inr h' \<Longrightarrow> length h' = length h"
  by (auto simp: AddOperation_def split: if_splits)

lemma Apply_length:
  assumes "Apply idx rd p keys s = Inr s'"
  shows "length (heap s') \<le> Suc (length (heap s))"
proof -
  from assms obtain s1 b s2 h3 where
    1: "CheckConflicts rd keys s = Inr s1" and 2: "acquire_block rd s1 = Inr (b, s2)"
    and 3: "AddOperation b \<lparr>read = rd, index = idx, operation = p\<rparr> (heap s2) = Inr h3"
    and s': "s' = s2\<lparr>ctx := RememberKeys rd keys (ctx s2), heap := h3\<rparr>"
    by (auto simp: Apply_def split: sum.splits prod.splits)
  from CheckConflicts_length [OF 1] acquire_block_length [OF 2] AddOperation_length [OF 3] s'
  show ?thesis by simp
qed

lemma RespondWithFailure_heap:
  "RespondWithFailure batch idx error s = Inr s' \<Longrightarrow> heap s' = heap s"
  by (auto simp: RespondWithFailure_def split: if_splits)

lemma Command_length:
  "Command env batch info idx rd s = Inr s' \<Longrightarrow> length (heap s') \<le> Suc (length (heap s))"
  by (auto simp: Command_def split: if_splits sum.splits
      dest: Apply_length RespondWithFailure_heap)

lemma EchoCommand_heap: "EchoCommand batch idx s = Inr s' \<Longrightarrow> heap s' = heap s"
  by (auto simp: EchoCommand_def split: if_splits sum.splits)

lemma Handle_command_length:
  "Handle_command env batch idx s = Inr s' \<Longrightarrow> length (heap s') \<le> Suc (length (heap s))"
  by (auto simp: Handle_command_def Let_def functor_of_def
      split: option.splits if_splits op_type.splits
      dest: Command_length RespondWithFailure_heap EchoCommand_heap)

lemma Handle_command_unscheduled:
  assumes idx: "idx < length batch" and ne: "batch ! idx \<noteq> []"
    and n: "scheduled env (batch ! idx) = None"
  shows "\<exists>s'. Handle_command env batch idx s = Inr s' \<and> ctx s' = ctx s \<and> heap s' = heap s"
proof (cases "FetchHandler (batch ! idx)")
  case None
  with idx ne show ?thesis by (simp add: Handle_command_def RespondWithFailure_ok)
next
  case (Some info)
  show ?thesis
  proof (cases "(arity info < 0 \<and> int (length (batch ! idx)) < - 1 * arity info) \<or>
                (arity info > 0 \<and> int (length (batch ! idx)) \<noteq> arity info)")
    case True
    with Some idx ne show ?thesis
      by (auto simp: Handle_command_def Let_def RespondWithFailure_ok)
  next
    case False
    then have f: "Handle_command env batch idx s = functor_of env batch info idx s"
      using Some by (auto simp: Handle_command_def Let_def)
    show ?thesis
    proof (cases "cmd_type info = ECHO")
      case True
      with FetchHandler_in_table [OF Some] have "arity info = 2" by (simp add: echo_arity)
      with False have "length (batch ! idx) = 2" by simp
      with True idx f show ?thesis
        by (simp add: functor_of_def EchoCommand_def ParseEcho_def)
    next
      case ne': False
      have c: "functor_of env batch info idx s =
                 Command env batch info idx (cmd_type info = READ) s"
        using ne' by (cases "cmd_type info") (simp_all add: functor_of_def)
      from n Some False ne' idx ne show ?thesis
        unfolding f c
        by (auto simp: scheduled_def Command_def RespondWithFailure_ok
            split: sum.splits if_splits)
    qed
  qed
qed

lemma Handle_command_returns:
  assumes idx: "idx < length batch" and ne: "batch ! idx \<noteq> []" and sinv: "sched_inv cs s"
  shows "\<exists>s' cs'. Handle_command env batch idx s = Inr s' \<and> sched_inv cs' s'"
proof (cases "scheduled env (batch ! idx)")
  case None
  from Handle_command_unscheduled [OF idx ne None, of s] obtain s' where
    h: "Handle_command env batch idx s = Inr s'" and e: "ctx s' = ctx s" "heap s' = heap s"
    by blast
  from sinv e have "sched_inv cs s'" by (simp add: sched_inv_def cong: option.case_cong)
  with h show ?thesis by blast
next
  case (Some x)
  obtain rd p keys where "x = (rd, p, keys)" by (cases x)
  with Some have sch: "scheduled env (batch ! idx) = Some (rd, p, keys)" by simp
  from Apply_sched_inv [OF sinv, of idx rd p keys] Handle_command_scheduled [OF idx sch, of s]
  show ?thesis by auto
qed

lemma for_loop_returns:
  assumes "P lo s"
    and "\<And>i t. lo \<le> i \<Longrightarrow> i < lo + n \<Longrightarrow> P i t \<Longrightarrow> \<exists>t'. body i t = Inr t' \<and> P (Suc i) t'"
  shows "\<exists>s'. for_loop body lo n s = Inr s' \<and> P (lo + n) s'"
  using assms
proof (induction n arbitrary: lo s)
  case 0
  then show ?case by simp
next
  case (Suc n)
  from Suc.prems(2) [of lo s] Suc.prems(1) obtain t where
    t: "body lo s = Inr t" and p: "P (Suc lo) t" by auto
  have "\<exists>u'. body i u = Inr u' \<and> P (Suc i) u'"
    if "Suc lo \<le> i" "i < Suc lo + n" "P i u" for i u
    using Suc.prems(2) [of i u] that by simp
  from Suc.IH [of "Suc lo" t, OF p this] t show ?case by auto
qed



lemma Handle_dispatch_returns:
  assumes ne: "\<forall>c \<in> set batch. c \<noteq> []" and su: "setup_status env = None"
  shows "\<exists>s cs. Handle_dispatch env batch = Inr (True, s) \<and> sched_inv cs s \<and>
           length (heap s) \<le> length batch"
proof -
  let ?P = "\<lambda>n t. (\<exists>cs. sched_inv cs t) \<and> length (heap t) \<le> n"
  have "\<exists>s. for_loop (Handle_command env batch) 0 (length batch) init_state = Inr s \<and>
          ?P (0 + length batch) s"
  proof (rule for_loop_returns [where P = ?P])
    show "?P 0 init_state" using sched_inv_init by (auto simp: init_state_def)
    show "\<exists>t'. Handle_command env batch i t = Inr t' \<and> ?P (Suc i) t'"
      if "0 \<le> i" "i < 0 + length batch" "?P i t" for i t
    proof -
      from that obtain cs where i: "i < length batch" and sinv: "sched_inv cs t"
        and len: "length (heap t) \<le> i" by auto
      from i ne have "batch ! i \<noteq> []" by simp
      from Handle_command_returns [OF i this sinv, of env] obtain t' cs' where
        h: "Handle_command env batch i t = Inr t'" and s': "sched_inv cs' t'" by blast
      from Handle_command_length [OF h] len have "length (heap t') \<le> Suc i" by simp
      with h s' show ?thesis by blast
    qed
  qed
  with su show ?thesis by (auto simp: Handle_dispatch_def)
qed

lemma Handle_dispatch_setup_failed:
  assumes ne: "\<forall>c \<in> set batch. c \<noteq> []" and su: "setup_status env = Some status"
  shows "\<exists>s. Handle_dispatch env batch = Inr (False, s)"
proof -
  let ?body = "\<lambda>idx. RespondWithFailure batch idx (''Could not open .redis table. '' @ status)"
  have "\<exists>s. for_loop ?body 0 (length batch) (init_state :: 'a call_state) = Inr s \<and> True"
  proof (rule for_loop_returns [where P = "\<lambda>n t. True"])
    show True ..
    show "\<exists>t'. ?body i t = Inr t' \<and> True" if "i < 0 + length batch" for i and t :: "'a call_state"
      using that ne by (simp add: RespondWithFailure_ok)
  qed
  with su show ?thesis by (auto simp: Handle_dispatch_def)
qed

text \<open>
  A batch in which every command has at least one token comes to an end: with fuel
  above twice the number of commands plus four the run returns a trace, whatever the
  backend and the schedule do.
\<close>

lemma Handle_returns:
  assumes ne: "\<forall>c \<in> set batch. c \<noteq> []" and fuel: "2 * length batch + 4 < fuel"
  shows "\<exists>tr. Handle fuel env batch = Inr tr"
proof (cases "setup_status env")
  case (Some status)
  from Handle_dispatch_setup_failed [OF ne Some] show ?thesis
    by (auto simp: Handle_def)
next
  case None
  from Handle_dispatch_returns [OF ne None] obtain s cs where
    hd: "Handle_dispatch env batch = Inr (True, s)" and sinv: "sched_inv cs s"
    and len: "length (heap s) \<le> length batch" by blast
  have "\<exists>tr. run fuel env (heap s) (Commit_launches (ctx s)) (trace s, []) = Inr tr"
  proof (cases "last_conflict_was_read (ctx s)")
    case l: None
    have fh: "flush_head (ctx s) = None" using sched_inv_None_chain [OF sinv l] by simp
    have blocks: "b < length (heap s) \<and> ops (heap s ! b) \<noteq> [] \<and>
        next_block (heap s ! b) = None" if "block (data rd (ctx s)) = Some b" for rd b
      using sched_inv_block_range [OF sinv that] sched_inv_ops [OF sinv]
        sched_inv_None_next [OF sinv l] by simp
    have 1: "\<forall>b \<in> set (Commit_launches (ctx s)) \<union> set [].
        b < length (heap s) \<and> ops (heap s ! b) \<noteq> [] \<and> next_block (heap s ! b) = None"
      using fh blocks [of True] blocks [of False]
      by (auto simp: Commit_launches_def data_def split: option.splits)
    have "length (Commit_launches (ctx s)) \<le> 2"
      using fh by (simp add: Commit_launches_def split: option.splits)
    with fuel have 2: "2 * length (Commit_launches (ctx s)) + length ([] :: nat list) < fuel"
      by simp
    from run_returns_flat [OF 1 2] show ?thesis .
  next
    case (Some l)
    from sched_inv_Some [OF sinv Some] obtain pre P L where
      ch: "is_chain (heap s) cs" and di: "distinct cs"
      and al: "set cs = {..<length (heap s)}" and cs: "cs = pre @ [P, L]"
      and fh: "flush_head (ctx s) = Some (hd cs)" by auto
    have "cs \<noteq> []" using cs by simp
    then obtain c0 rest where cs': "cs = c0 # rest" by (auto simp: neq_Nil_conv)
    with fh have cl: "Commit_launches (ctx s) = [c0]" by (simp add: Commit_launches_def)
    have "length cs = card (set cs)" using di by (simp add: distinct_card)
    with al have "length cs = length (heap s)" by simp
    with len fuel cs' have f: "2 * length (c0 # rest) < fuel" by simp
    have ne': "\<forall>x \<in> set (c0 # rest). ops (heap s ! x) \<noteq> []"
      using al cs' sched_inv_ops [OF sinv] by auto
    from run_returns_head [OF ch [unfolded cs'] ne' f] cl show ?thesis by simp
  qed
  with hd show ?thesis by (simp add: Handle_def)
qed


section \<open>The answer at each batch index\<close>

subsection \<open>What the loop of the dispatcher does for one command\<close>

text \<open>
  A command that is not handed to the scheduler is answered by the loop body at once,
  with the response \<open>dispatcher_answer\<close> computes, and leaves the context and the heap
  alone; a command handed to the scheduler adds its operation to a block and is not
  answered before the commit.
\<close>

lemma responses_at_append [simp]:
  "responses_at i (u @ v) = responses_at i u @ responses_at i v"
  by (induction i u rule: responses_at.induct) simp_all

lemma block_events_responses:
  "block_events I u \<Longrightarrow> i \<notin> I \<Longrightarrow> responses_at i u = [] \<and> Applied i \<notin> set u"
  by (induction i u rule: responses_at.induct) (auto simp: block_events_def)

lemma dispatcher_answer_None:
  "dispatcher_answer env c = None \<longleftrightarrow> scheduled env c \<noteq> None"
  by (auto simp: dispatcher_answer_def scheduled_def split: option.splits sum.splits)

lemma Handle_command_nonempty:
  "idx < length batch \<Longrightarrow> Handle_command env batch idx s = Inr s' \<Longrightarrow> batch ! idx \<noteq> []"
  by (auto simp: Handle_command_def FetchHandler_def RespondWithFailure_def)

lemma Handle_command_answered:
  assumes idx: "idx < length batch" and ne: "batch ! idx \<noteq> []"
    and a: "dispatcher_answer env (batch ! idx) = Some r"
  shows "Handle_command env batch idx s = Inr (s\<lparr>trace := trace s @ [Responded idx r]\<rparr>)"
proof (cases "FetchHandler (batch ! idx)")
  case None
  with idx ne a show ?thesis
    by (auto simp: Handle_command_def dispatcher_answer_def RespondWithFailure_ok)
next
  case (Some info)
  have tab: "info \<in> set REDIS_COMMANDS" using Some by (rule FetchHandler_in_table)
  show ?thesis
  proof (cases "cmd_type info = ECHO")
    case True
    with tab have "arity info = 2" by (simp add: echo_arity)
    with True Some idx ne a show ?thesis
      by (auto simp: Handle_command_def dispatcher_answer_def RespondWithFailure_ok
          functor_of_def EchoCommand_def ParseEcho_def split: if_splits)
  next
    case False
    with Some idx ne a show ?thesis
      by (auto simp: Handle_command_def dispatcher_answer_def RespondWithFailure_ok
          functor_of_def Command_def split: if_splits sum.splits op_type.splits)
  qed
qed

lemma heap_ops_nth: "heap_ops h = (\<Union>b<length h. set (ops (h ! b)))"
proof -
  have "set h = (\<lambda>b. h ! b) ` {..<length h}"
    by (auto simp: set_conv_nth)
  then show ?thesis by (simp add: heap_ops_def)
qed

lemma SetNext_heap_ops: "SetNext b n h = Inr (old, h') \<Longrightarrow> heap_ops h' = heap_ops h"
  by (auto simp: SetNext_def heap_ops_def simp del: set_concat split: if_splits)

lemma AddOperation_heap_ops:
  "AddOperation b oper h = Inr h' \<Longrightarrow> heap_ops h' = insert oper (heap_ops h)"
  by (auto simp: AddOperation_def heap_ops_nth nth_list_update split: if_splits)

lemma ConflictFound_heap_ops:
  "ConflictFound rd s = Inr s' \<Longrightarrow> heap_ops (heap s') = heap_ops (heap s)"
  by (auto simp: ConflictFound_def split: option.splits sum.splits dest: SetNext_heap_ops)

lemma CheckConflicts_heap_ops:
  "CheckConflicts rd keys s = Inr s' \<Longrightarrow> heap_ops (heap s') = heap_ops (heap s)"
  by (auto simp: CheckConflicts_def split: if_splits dest: ConflictFound_heap_ops)

lemma heap_ops_new_block:
  "heap_ops (h @ [\<lparr>ops = [], next_block = None\<rparr>]) = heap_ops h"
  by (simp add: heap_ops_def)

lemma acquire_block_heap_ops:
  "acquire_block rd s = Inr (b, s') \<Longrightarrow> heap_ops (heap s') = heap_ops (heap s)"
  by (auto simp: acquire_block_def Let_def heap_ops_new_block
      split: option.splits sum.splits if_splits dest!: SetNext_heap_ops)

lemma Apply_heap_ops:
  assumes "Apply idx rd p keys s = Inr s'"
  shows "heap_ops (heap s') = insert \<lparr>read = rd, index = idx, operation = p\<rparr> (heap_ops (heap s))"
proof -
  from assms obtain s1 b s2 h3 where
    1: "CheckConflicts rd keys s = Inr s1" and 2: "acquire_block rd s1 = Inr (b, s2)"
    and 3: "AddOperation b \<lparr>read = rd, index = idx, operation = p\<rparr> (heap s2) = Inr h3"
    and s': "s' = s2\<lparr>ctx := RememberKeys rd keys (ctx s2), heap := h3\<rparr>"
    by (auto simp: Apply_def split: sum.splits prod.splits)
  from CheckConflicts_heap_ops [OF 1] acquire_block_heap_ops [OF 2] AddOperation_heap_ops [OF 3] s'
  show ?thesis by simp
qed

subsection \<open>The dispatcher's loop and the run of the blocks\<close>

text \<open>
  After the loop, the responses in the trace at each index are the dispatcher's own
  answer (none for a scheduled command), and the operations of the heap are those of
  the scheduled commands. Whatever the blocks and their callbacks emit later carries
  the index of an operation of the heap.
\<close>

lemma Handle_command_responses:
  assumes idx: "idx < length batch" and h: "Handle_command env batch idx s = Inr s'"
  shows "responses_at i (trace s') =
           responses_at i (trace s) @
           (if i = idx then (case dispatcher_answer env (batch ! idx) of
                               Some r \<Rightarrow> [r] | None \<Rightarrow> [])
            else [])"
proof (cases "dispatcher_answer env (batch ! idx)")
  case (Some r)
  from Handle_command_nonempty [OF idx h] have ne: "batch ! idx \<noteq> []" .
  from Handle_command_answered [OF idx ne Some, of s] h
  have "s' = s\<lparr>trace := trace s @ [Responded idx r]\<rparr>" by simp
  with Some show ?thesis by simp
next
  case None
  then obtain rd p keys where sch: "scheduled env (batch ! idx) = Some (rd, p, keys)"
    using dispatcher_answer_None [of env "batch ! idx"] by auto
  from Handle_command_scheduled [OF idx sch] h have "Apply idx rd p keys s = Inr s'" by simp
  from Apply_trace [OF this] None show ?thesis by auto
qed

lemma Handle_command_heap_ops:
  assumes idx: "idx < length batch" and h: "Handle_command env batch idx s = Inr s'"
  shows "heap_ops (heap s') =
           heap_ops (heap s) \<union>
           {\<lparr>read = rd, index = idx, operation = p\<rparr> | rd p keys.
              scheduled env (batch ! idx) = Some (rd, p, keys)}"
proof (cases "scheduled env (batch ! idx)")
  case None
  from Handle_command_not_scheduled [OF idx None h] None show ?thesis by auto
next
  case (Some x)
  obtain rd p keys where x: "x = (rd, p, keys)" by (cases x)
  from Handle_command_scheduled [OF idx Some [unfolded x]] h
  have "Apply idx rd p keys s = Inr s'" by simp
  from Apply_heap_ops [OF this] Some x show ?thesis by auto
qed

lemma Handle_dispatch_answers:
  assumes h: "Handle_dispatch env batch = Inr (True, s)"
  shows "setup_status env = None \<and>
         (\<forall>i. responses_at i (trace s) =
            (if i < length batch
             then (case dispatcher_answer env (batch ! i) of Some r \<Rightarrow> [r] | None \<Rightarrow> [])
             else [])) \<and>
         heap_ops (heap s) =
           {\<lparr>read = rd, index = i, operation = p\<rparr> | i rd p keys.
              i < length batch \<and> scheduled env (batch ! i) = Some (rd, p, keys)}"
proof -
  from h have su: "setup_status env = None"
    and l: "for_loop (Handle_command env batch) 0 (length batch) init_state = Inr s"
    by (auto simp: Handle_dispatch_def split: option.splits sum.splits)
  let ?R = "\<lambda>n t. \<forall>i. responses_at i (trace t) =
            (if i < n
             then (case dispatcher_answer env (batch ! i) of Some r \<Rightarrow> [r] | None \<Rightarrow> [])
             else [])"
  let ?H = "\<lambda>n t. heap_ops (heap t) =
           {\<lparr>read = rd, index = i, operation = p\<rparr> | i rd p keys.
              i < n \<and> scheduled env (batch ! i) = Some (rd, p, keys)}"
  let ?P = "\<lambda>n t. ?R n t \<and> ?H n t"
  have "?P (0 + length batch) s"
  proof (rule for_loop_invariant_indexed [where P = ?P, OF _ l])
    show "?P 0 init_state" by (simp add: init_state_def heap_ops_def)
    show "?P (Suc n) t'"
      if "0 \<le> n" and n: "n < 0 + length batch" and p: "?P n t"
        and b: "Handle_command env batch n t = Inr t'"
      for n t t'
    proof -
      from n have n': "n < length batch" by simp
      from p have r: "?R n t" and hp: "?H n t" by blast+
      have "?R (Suc n) t'"
        using r Handle_command_responses [OF n' b] by (auto simp: less_Suc_eq)
      moreover have "?H (Suc n) t'"
        unfolding Handle_command_heap_ops [OF n' b] hp by (auto simp: less_Suc_eq)
      ultimately show ?thesis by blast
    qed
  qed
  with su show ?thesis by simp
qed

lemma RespondWithFailure_responses:
  assumes "RespondWithFailure batch idx error s = Inr s'"
  shows "responses_at i (trace s') =
           responses_at i (trace s) @
           (if i = idx then [Failure ((batch ! idx) ! 0 @ '': '' @ error)] else [])"
  using assms by (auto simp: RespondWithFailure_def split: if_splits)

lemma Handle_dispatch_setup_answers:
  assumes h: "Handle_dispatch env batch = Inr (False, s)"
  shows "\<exists>status. setup_status env = Some status \<and>
           (\<forall>i. responses_at i (trace s) =
              (if i < length batch
               then [Failure ((batch ! i) ! 0 @ '': Could not open .redis table. '' @ status)]
               else []))"
proof -
  from h obtain status where su: "setup_status env = Some status"
    and l: "for_loop (\<lambda>idx. RespondWithFailure batch idx
        (''Could not open .redis table. '' @ status)) 0 (length batch) init_state = Inr s"
    by (auto simp: Handle_dispatch_def split: option.splits sum.splits)
  let ?P = "\<lambda>n t. \<forall>i. responses_at i (trace t) =
              (if i < n
               then [Failure ((batch ! i) ! 0 @ '': Could not open .redis table. '' @ status)]
               else [])"
  have "?P (0 + length batch) s"
  proof (rule for_loop_invariant_indexed [where P = ?P, OF _ l])
    show "?P 0 init_state" by (simp add: init_state_def)
    show "?P (Suc n) t'"
      if "0 \<le> n" and "n < 0 + length batch" and p: "?P n t"
        and b: "RespondWithFailure batch n (''Could not open .redis table. '' @ status) t = Inr t'"
      for n t t'
      using p RespondWithFailure_responses [OF b] by (auto simp: less_Suc_eq)
  qed
  with su show ?thesis by simp
qed

lemma Launch_events:
  "Launch fuel env h b (tr, pend) = Inr (tr', pend') \<Longrightarrow>
   \<exists>u. tr' = tr @ u \<and> block_events (index ` heap_ops h) u"
proof (induction fuel arbitrary: b tr pend)
  case 0
  then show ?case by simp
next
  case (Suc fuel)
  from Suc.prems have b: "b < length h"
    by (auto split: if_splits)
  obtain tr1 ok where a: "apply_ops env (ops (h ! b)) tr False = (tr1, ok)"
    by (cases "apply_ops env (ops (h ! b)) tr False")
  from apply_ops_events [OF a] obtain evs where
    e: "tr1 = tr @ evs" and be: "block_events (index ` set (ops (h ! b))) evs" by blast
  have "index ` set (ops (h ! b)) \<subseteq> index ` heap_ops h"
    using b by (auto simp: heap_ops_nth)
  with be have be': "block_events (index ` heap_ops h) evs" by (rule block_events_mono)
  show ?case
  proof (cases ok)
    case True
    with Suc.prems a b have "tr' = tr1 @ [Flushed b]"
      by (auto split: if_splits)
    with e be' show ?thesis by (auto simp: block_events_def)
  next
    case False
    show ?thesis
    proof (cases "next_block (h ! b)")
      case None
      with Suc.prems a b False have "tr' = tr1" by (auto split: if_splits)
      with e be' show ?thesis by auto
    next
      case (Some nb)
      with Suc.prems a b False have "Launch fuel env h nb (tr1, pend) = Inr (tr', pend')"
        by (auto split: if_splits)
      from Suc.IH [OF this] obtain u where "tr' = tr1 @ u" "block_events (index ` heap_ops h) u"
        by blast
      with e be' show ?thesis by (intro exI [of _ "evs @ u"]) simp
    qed
  qed
qed

lemma Done_events:
  assumes "Done fuel env h b (tr, pend) = Inr (tr', pend')"
  shows "\<exists>u. tr' = tr @ u \<and> block_events (index ` heap_ops h) u"
proof -
  from assms have b: "b < length h"
    by (auto simp: Done_def split: if_splits)
  let ?d = "done_responses env tr b (ops (h ! b))"
  have "block_events (index ` set (ops (h ! b))) ?d"
    using done_responses_events [of "ops (h ! b)" env tr b] by (simp add: block_trace_def)
  moreover have "index ` set (ops (h ! b)) \<subseteq> index ` heap_ops h"
    using b by (auto simp: heap_ops_nth)
  ultimately have d: "block_events (index ` heap_ops h) ?d" by (rule block_events_mono)
  show ?thesis
  proof (cases "next_block (h ! b)")
    case None
    with assms b have "tr' = tr @ ?d" by (auto simp: Done_def)
    with d show ?thesis by blast
  next
    case (Some nb)
    with assms b have "Launch fuel env h nb (tr @ ?d, pend) = Inr (tr', pend')"
      by (auto simp: Done_def)
    from Launch_events [OF this] obtain u where
      "tr' = (tr @ ?d) @ u" "block_events (index ` heap_ops h) u" by blast
    with d show ?thesis by (intro exI [of _ "?d @ u"]) simp
  qed
qed

lemma run_events:
  "run fuel env h main (tr, pend) = Inr tr' \<Longrightarrow>
   \<exists>u. tr' = tr @ u \<and> block_events (index ` heap_ops h) u"
proof (induction fuel arbitrary: main tr pend)
  case 0
  then show ?case by (auto split: if_splits)
next
  case (Suc fuel)
  show ?case
  proof (cases "next_step env main tr pend")
    case Idle
    with Suc.prems show ?thesis by auto
  next
    case (MainThread b rest)
    with Suc.prems obtain tr1 pend1 where
      l: "Launch fuel env h b (tr, pend) = Inr (tr1, pend1)"
      and r: "run fuel env h rest (tr1, pend1) = Inr tr'"
      by (auto split: sum.splits)
    from Launch_events [OF l] obtain u where u: "tr1 = tr @ u" "block_events (index ` heap_ops h) u"
      by blast
    from Suc.IH [OF r] obtain v where v: "tr' = tr1 @ v" "block_events (index ` heap_ops h) v"
      by blast
    from u v show ?thesis by (intro exI [of _ "u @ v"]) simp
  next
    case (Callback b)
    with Suc.prems obtain tr1 pend1 where
      l: "Done fuel env h b (tr, remove1 b pend) = Inr (tr1, pend1)"
      and r: "run fuel env h main (tr1, pend1) = Inr tr'"
      by (auto split: sum.splits)
    from Done_events [OF l] obtain u where u: "tr1 = tr @ u" "block_events (index ` heap_ops h) u"
      by blast
    from Suc.IH [OF r] obtain v where v: "tr' = tr1 @ v" "block_events (index ` heap_ops h) v"
      by blast
    from u v show ?thesis by (intro exI [of _ "u @ v"]) simp
  qed
qed

subsection \<open>The whole life of the batch\<close>

lemma responses_at_set: "r \<in> set (responses_at i tr) \<longleftrightarrow> Responded i r \<in> set tr"
  by (induction i tr rule: responses_at.induct) auto

lemma for_loop_steps:
  "for_loop body lo n s = Inr s' \<Longrightarrow> lo \<le> i \<Longrightarrow> i < lo + n \<Longrightarrow> \<exists>t t'. body i t = Inr t'"
proof (induction n arbitrary: lo s)
  case 0
  then show ?case by simp
next
  case (Suc n)
  from Suc.prems(1) obtain t where t: "body lo s = Inr t" and r: "for_loop body (Suc lo) n t = Inr s'"
    by (auto split: sum.splits)
  show ?case
  proof (cases "i = lo")
    case True
    with t show ?thesis by blast
  next
    case False
    with Suc.prems have "Suc lo \<le> i" "i < Suc lo + n" by simp_all
    from Suc.IH [OF r this] show ?thesis .
  qed
qed

lemma Handle_dispatch_nonempty:
  fixes s :: "'p call_state"
  assumes "Handle_dispatch env batch = Inr (committed, s)"
  shows "\<forall>c \<in> set batch. c \<noteq> []"
proof
  fix c assume "c \<in> set batch"
  then obtain i where i: "i < length batch" and c: "c = batch ! i"
    by (auto simp: in_set_conv_nth)
  show "c \<noteq> []"
  proof (cases "setup_status env")
    case None
    with assms have "for_loop (Handle_command env batch) 0 (length batch) init_state = Inr s"
      by (auto simp: Handle_dispatch_def split: sum.splits)
    from for_loop_steps [OF this, of i] i obtain t t' where
      "Handle_command env batch i t = Inr t'" by auto
    from Handle_command_nonempty [OF i this] c show ?thesis by simp
  next
    case (Some status)
    with assms have "for_loop (\<lambda>idx. RespondWithFailure batch idx
        (''Could not open .redis table. '' @ status)) 0 (length batch) init_state = Inr s"
      by (auto simp: Handle_dispatch_def split: sum.splits)
    from for_loop_steps [OF this, of i] i obtain t t' :: "'p call_state" where
      "RespondWithFailure batch i (''Could not open .redis table. '' @ status) t = Inr t'"
      by auto
    with c show ?thesis by (auto simp: RespondWithFailure_def split: if_splits)
  qed
qed

lemma Handle_dispatch_run_returns:
  assumes "Handle_dispatch env batch = Inr (committed, s)" and "2 * length batch + 4 < fuel"
  shows "\<exists>tr. Handle fuel env batch = Inr tr"
  using Handle_returns [OF Handle_dispatch_nonempty [OF assms(1)] assms(2)] .

lemma Handle_split:
  assumes run: "Handle fuel env batch = Inr tr"
    and hd: "Handle_dispatch env batch = Inr (committed, s)"
  shows "\<exists>u. tr = trace s @ u \<and> block_events (index ` heap_ops (heap s)) u"
proof (cases committed)
  case True
  with run hd have "run fuel env (heap s) (Commit_launches (ctx s)) (trace s, []) = Inr tr"
    by (simp add: Handle_def)
  then show ?thesis by (rule run_events)
next
  case False
  with run hd have "tr = trace s" by (simp add: Handle_def)
  then show ?thesis by simp
qed

lemma dispatch_trace_not_applied:
  assumes "Handle_dispatch env batch = Inr (committed, s)"
  shows "Applied i \<notin> set (trace s)"
  using Handle_dispatch_events [OF assms] by (auto simp: list_all_iff)

lemma Handle_answered:
  assumes su: "setup_status env = None"
    and hd: "Handle_dispatch env batch = Inr (committed, s)"
    and run: "Handle fuel env batch = Inr tr"
    and idx: "idx < length batch"
    and a: "dispatcher_answer env (batch ! idx) = Some r"
  shows "responses_at idx (trace s) = [r] \<and> responses_at idx tr = [r] \<and>
         Applied idx \<notin> set tr \<and> idx \<notin> index ` heap_ops (heap s)"
proof -
  from su hd have hd': "Handle_dispatch env batch = Inr (True, s)"
    by (auto simp: Handle_dispatch_def split: sum.splits)
  note ans = Handle_dispatch_answers [OF hd']
  from ans idx a have r: "responses_at idx (trace s) = [r]" by simp
  from a have "scheduled env (batch ! idx) = None"
    using dispatcher_answer_None [of env "batch ! idx"]
    by (cases "scheduled env (batch ! idx)") auto
  with ans have ni: "idx \<notin> index ` heap_ops (heap s)" by auto
  from Handle_split [OF run hd] obtain u where
    tr: "tr = trace s @ u" and be: "block_events (index ` heap_ops (heap s)) u" by blast
  from block_events_responses [OF be ni] have "responses_at idx u = []" "Applied idx \<notin> set u"
    by simp_all
  with tr r ni dispatch_trace_not_applied [OF hd, of idx] show ?thesis by simp
qed

lemma Handle_setup_failed_answered:
  assumes su: "setup_status env = Some status"
    and run: "Handle fuel env batch = Inr tr"
    and idx: "idx < length batch"
  shows "responses_at idx tr =
           [Failure ((batch ! idx) ! 0 @ '': Could not open .redis table. '' @ status)] \<and>
         Applied idx \<notin> set tr"
proof -
  from run obtain committed s where hd: "Handle_dispatch env batch = Inr (committed, s)"
    by (auto simp: Handle_def split: sum.splits)
  with su have hd': "Handle_dispatch env batch = Inr (False, s)"
    by (auto simp: Handle_dispatch_def split: sum.splits)
  with run have tr: "tr = trace s" by (simp add: Handle_def)
  from Handle_dispatch_setup_answers [OF hd'] su idx tr
    dispatch_trace_not_applied [OF hd', of idx]
  show ?thesis by auto
qed

lemma Handle_scheduled_heap:
  assumes hd: "Handle_dispatch env batch = Inr (True, s)"
    and idx: "idx < length batch"
    and sch: "scheduled env (batch ! idx) = Some (rd, p, keys)"
  shows "responses_at idx (trace s) = [] \<and>
         \<lparr>read = rd, index = idx, operation = p\<rparr> \<in> heap_ops (heap s)"
proof -
  note ans = Handle_dispatch_answers [OF hd]
  from sch have "dispatcher_answer env (batch ! idx) = None"
    using dispatcher_answer_None [of env "batch ! idx"] by simp
  with ans idx have "responses_at idx (trace s) = []" by simp
  moreover from ans idx sch have "\<lparr>read = rd, index = idx, operation = p\<rparr> \<in> heap_ops (heap s)"
    by blast
  ultimately show ?thesis by simp
qed

section \<open>The arity rule, the failure messages and ECHO\<close>

subsection \<open>The arity rule\<close>

text \<open>
  C7, as stated, fails. When the set-up of the client fails, \<^verbatim>\<open>Handle\<close> answers every
  index with the set-up error and never looks at the arity: a \<open>get\<close> of three tokens
  is answered \<open>get: Could not open .redis table. no table\<close>. And the text of the arity
  rule is not reserved to it: a parser that rejects a \<open>get\<close> of two tokens with the
  text \<open>Wrong number of arguments.\<close> produces the same response although the
  number of tokens equals the arity.
\<close>

theorem arity_check_counterexample:
  "Handle 2 setup_failed_env [[''get'', ''k'', ''x'']] =
     Inr [Responded 0 (Failure ''get: Could not open .redis table. no table'')] \<and>
   Handle 2 same_text_env [[''get'', ''k'']] =
     Inr [Responded 0 (Failure ''get: Wrong number of arguments.'')]"
  by code_simp

text \<open>
  C7, amended. Let the client be set up, and let the command at \<open>idx\<close> have the
  descriptor \<open>info\<close>. If the arity is positive and the number of tokens differs from
  it, the one response at \<open>idx\<close> in the whole life of the batch is the failure
  \<open>Wrong number of arguments.\<close> after the first token, nothing of \<open>idx\<close> is applied
  to a session and no block holds an operation of \<open>idx\<close>; conversely, when the
  dispatcher emits that failure at \<open>idx\<close>, either the number of tokens differs from
  the arity or the parser of the command, or the read of its key, reported that very
  text. The same holds for a negative arity, a number of tokens below its absolute
  value, and \<open>Too few arguments.\<close> Otherwise the command goes to its parser: an ECHO
  is answered with its second token; a READ or WRITE whose parser (or key read) fails
  is answered with that error after the first token; and one whose parser succeeds is
  not answered by the dispatcher, its operation being in a block of the heap. With
  fuel above twice the number of commands plus four the run returns.
\<close>

theorem arity_check:
  assumes su: "setup_status env = None"
    and hd: "Handle_dispatch env batch = Inr (committed, s)"
    and run: "Handle fuel env batch = Inr tr"
    and idx: "idx < length batch"
    and f: "FetchHandler (batch ! idx) = Some info"
  shows
    "(0 < arity info \<longrightarrow>
        (int (length (batch ! idx)) \<noteq> arity info \<longrightarrow>
           responses_at idx tr =
             [Failure ((batch ! idx) ! 0 @ '': Wrong number of arguments.'')] \<and>
           Applied idx \<notin> set tr \<and> idx \<notin> index ` heap_ops (heap s)) \<and>
        (Responded idx (Failure ((batch ! idx) ! 0 @ '': Wrong number of arguments.''))
           \<in> set (trace s) \<longrightarrow>
           int (length (batch ! idx)) \<noteq> arity info \<or>
           parser env (name info) (batch ! idx) = Inl ''Wrong number of arguments.'' \<or>
           (\<exists>p. parser env (name info) (batch ! idx) = Inr p \<and> safe_batch env \<and>
                GetBinary env p = Inl ''Wrong number of arguments.''))) \<and>
     (arity info < 0 \<longrightarrow>
        (int (length (batch ! idx)) < \<bar>arity info\<bar> \<longrightarrow>
           responses_at idx tr =
             [Failure ((batch ! idx) ! 0 @ '': Too few arguments.'')] \<and>
           Applied idx \<notin> set tr \<and> idx \<notin> index ` heap_ops (heap s)) \<and>
        (Responded idx (Failure ((batch ! idx) ! 0 @ '': Too few arguments.''))
           \<in> set (trace s) \<longrightarrow>
           int (length (batch ! idx)) < \<bar>arity info\<bar> \<or>
           parser env (name info) (batch ! idx) = Inl ''Too few arguments.'' \<or>
           (\<exists>p. parser env (name info) (batch ! idx) = Inr p \<and> safe_batch env \<and>
                GetBinary env p = Inl ''Too few arguments.''))) \<and>
     (\<not> (0 < arity info \<and> int (length (batch ! idx)) \<noteq> arity info) \<and>
      \<not> (arity info < 0 \<and> int (length (batch ! idx)) < \<bar>arity info\<bar>) \<longrightarrow>
        responses_at idx (trace s) =
          (if cmd_type info = ECHO
           then [Success \<lparr>string_response = Some ((batch ! idx) ! 1)\<rparr>]
           else (case parser env (name info) (batch ! idx) of
                   Inl msg \<Rightarrow> [Failure ((batch ! idx) ! 0 @ '': '' @ msg)]
                 | Inr p \<Rightarrow>
                     if safe_batch env
                     then (case GetBinary env p of
                             Inl msg \<Rightarrow> [Failure ((batch ! idx) ! 0 @ '': '' @ msg)]
                           | Inr key \<Rightarrow> [])
                     else [])) \<and>
        (\<forall>p. cmd_type info \<noteq> ECHO \<and> parser env (name info) (batch ! idx) = Inr p \<and>
              (safe_batch env \<longrightarrow> (\<exists>key. GetBinary env p = Inr key)) \<longrightarrow>
              \<lparr>read = (cmd_type info = READ), index = idx, operation = p\<rparr>
                \<in> heap_ops (heap s))) \<and>
     (\<forall>fuel'. 2 * length batch + 4 < fuel' \<longrightarrow> (\<exists>tr'. Handle fuel' env batch = Inr tr'))"
proof -
  let ?c = "batch ! idx"
  let ?W = "Failure (?c ! 0 @ '': Wrong number of arguments.'')"
  let ?T = "Failure (?c ! 0 @ '': Too few arguments.'')"
  from su hd have hd': "Handle_dispatch env batch = Inr (True, s)"
    by (auto simp: Handle_dispatch_def split: sum.splits)
  note ans = Handle_dispatch_answers [OF hd']
  from ans idx have resp: "responses_at idx (trace s) =
      (case dispatcher_answer env ?c of Some r \<Rightarrow> [r] | None \<Rightarrow> [])" by simp
  have in_trace: "dispatcher_answer env ?c = Some r" if "Responded idx r \<in> set (trace s)" for r
  proof -
    from that have "r \<in> set (responses_at idx (trace s))" by (simp add: responses_at_set)
    with resp show ?thesis by (auto split: option.splits)
  qed
  have w1: "responses_at idx tr = [?W] \<and> Applied idx \<notin> set tr \<and>
            idx \<notin> index ` heap_ops (heap s)"
    if "0 < arity info" "int (length ?c) \<noteq> arity info"
  proof -
    from that f have "dispatcher_answer env ?c = Some ?W"
      by (simp add: dispatcher_answer_def)
    from Handle_answered [OF su hd run idx this] show ?thesis by simp
  qed
  have w2: "int (length ?c) \<noteq> arity info \<or>
           parser env (name info) ?c = Inl ''Wrong number of arguments.'' \<or>
           (\<exists>p. parser env (name info) ?c = Inr p \<and> safe_batch env \<and>
                GetBinary env p = Inl ''Wrong number of arguments.'')"
    if "0 < arity info" "Responded idx ?W \<in> set (trace s)"
    using in_trace [OF that(2)] that(1) f
    by (auto simp: dispatcher_answer_def split: if_splits sum.splits)
  have t1: "responses_at idx tr = [?T] \<and> Applied idx \<notin> set tr \<and>
            idx \<notin> index ` heap_ops (heap s)"
    if "arity info < 0" "int (length ?c) < \<bar>arity info\<bar>"
  proof -
    from that f have "dispatcher_answer env ?c = Some ?T"
      by (simp add: dispatcher_answer_def)
    from Handle_answered [OF su hd run idx this] show ?thesis by simp
  qed
  have t2: "int (length ?c) < \<bar>arity info\<bar> \<or>
           parser env (name info) ?c = Inl ''Too few arguments.'' \<or>
           (\<exists>p. parser env (name info) ?c = Inr p \<and> safe_batch env \<and>
                GetBinary env p = Inl ''Too few arguments.'')"
    if "arity info < 0" "Responded idx ?T \<in> set (trace s)"
    using in_trace [OF that(2)] that(1) f
    by (auto simp: dispatcher_answer_def split: if_splits sum.splits)
  have p1: "responses_at idx (trace s) =
          (if cmd_type info = ECHO
           then [Success \<lparr>string_response = Some (?c ! 1)\<rparr>]
           else (case parser env (name info) ?c of
                   Inl msg \<Rightarrow> [Failure (?c ! 0 @ '': '' @ msg)]
                 | Inr p \<Rightarrow>
                     if safe_batch env
                     then (case GetBinary env p of
                             Inl msg \<Rightarrow> [Failure (?c ! 0 @ '': '' @ msg)]
                           | Inr key \<Rightarrow> [])
                     else []))"
    if "\<not> (0 < arity info \<and> int (length ?c) \<noteq> arity info)"
      "\<not> (arity info < 0 \<and> int (length ?c) < \<bar>arity info\<bar>)"
    using that f unfolding resp
    by (auto simp: dispatcher_answer_def split: sum.splits)
  have p2: "\<lparr>read = (cmd_type info = READ), index = idx, operation = p\<rparr> \<in> heap_ops (heap s)"
    if "\<not> (0 < arity info \<and> int (length ?c) \<noteq> arity info)"
      "\<not> (arity info < 0 \<and> int (length ?c) < \<bar>arity info\<bar>)"
      "cmd_type info \<noteq> ECHO" "parser env (name info) ?c = Inr p"
      "safe_batch env \<longrightarrow> (\<exists>key. GetBinary env p = Inr key)" for p
  proof -
    from that f have "\<exists>keys. scheduled env ?c = Some (cmd_type info = READ, p, keys)"
      by (auto simp: scheduled_def)
    then obtain keys where "scheduled env ?c = Some (cmd_type info = READ, p, keys)" ..
    from Handle_scheduled_heap [OF hd' idx this] show ?thesis by simp
  qed
  have d: "\<exists>tr'. Handle fuel' env batch = Inr tr'" if "2 * length batch + 4 < fuel'" for fuel'
    using Handle_dispatch_run_returns [OF hd that] .
  from w1 w2 t1 t2 p1 p2 d show ?thesis by blast
qed

lemma FetchHandler_get_two: "FetchHandler [''get'', ''k''] = Some (mk_info ''get'' 2 READ)"
  by code_simp

lemma Handle_dispatch_arity_example:
  "Handle_dispatch example_env [[''get'', ''k'', ''x''], [''SET'', ''k''], [''get'', ''k'']] =
     Inr (True,
       \<lparr>ctx = \<lparr>read_data = \<lparr>used_keys = {''k''}, block = Some 0\<rparr>,
               write_data = \<lparr>used_keys = {}, block = None\<rparr>,
               flush_head = None, last_conflict_was_read = None\<rparr>,
        heap = [\<lparr>ops = [\<lparr>read = True, index = 2, operation = ''k''\<rparr>], next_block = None\<rparr>],
        trace = [Responded 0 (Failure ''get: Wrong number of arguments.''),
                 Responded 1 (Failure ''SET: Too few arguments.'')]\<rparr>)"
  by code_simp

lemma Handle_arity_example:
  "Handle 3 example_env [[''get'', ''k'', ''x''], [''SET'', ''k''], [''get'', ''k'']] =
     Inr [Responded 0 (Failure ''get: Wrong number of arguments.''),
          Responded 1 (Failure ''SET: Too few arguments.''),
          Applied 2, Flushed 0, Responded 2 (Success \<lparr>string_response = Some ''k''\<rparr>)]"
  by code_simp

theorem arity_check_witness:
  "setup_status example_env = None \<and>
   Handle 3 example_env [[''get'', ''k'', ''x''], [''SET'', ''k''], [''get'', ''k'']] =
     Inr [Responded 0 (Failure ''get: Wrong number of arguments.''),
          Responded 1 (Failure ''SET: Too few arguments.''),
          Applied 2, Flushed 0, Responded 2 (Success \<lparr>string_response = Some ''k''\<rparr>)] \<and>
   responses_at 0
     [Responded 0 (Failure ''get: Wrong number of arguments.''),
      Responded 1 (Failure ''SET: Too few arguments.''),
      Applied 2, Flushed 0, Responded 2 (Success \<lparr>string_response = Some ''k''\<rparr>)] =
     [Failure ''get: Wrong number of arguments.''] \<and>
   responses_at 1
     [Responded 0 (Failure ''get: Wrong number of arguments.''),
      Responded 1 (Failure ''SET: Too few arguments.''),
      Applied 2, Flushed 0, Responded 2 (Success \<lparr>string_response = Some ''k''\<rparr>)] =
     [Failure ''SET: Too few arguments.''] \<and>
   responses_at 2
     [Responded 0 (Failure ''get: Wrong number of arguments.''),
      Responded 1 (Failure ''SET: Too few arguments.'')] = [] \<and>
   \<lparr>read = True, index = 2, operation = ''k''\<rparr> \<in> heap_ops
     [\<lparr>ops = [\<lparr>read = True, index = 2, operation = ''k''\<rparr>], next_block = None\<rparr>]"
proof -
  let ?B = "[[''get'', ''k'', ''x''], [''SET'', ''k''], [''get'', ''k'']]"
  have su: "setup_status example_env = None" by (simp add: example_env_def)
  have f0: "FetchHandler (?B ! 0) = Some (mk_info ''get'' 2 READ)"
    using FetchHandler_get by simp
  have f1: "FetchHandler (?B ! 1) = Some (mk_info ''set'' (-3) WRITE)"
    using FetchHandler_set by simp
  have f2: "FetchHandler (?B ! 2) = Some (mk_info ''get'' 2 READ)"
    using FetchHandler_get_two by simp
  note t0 = arity_check [OF su Handle_dispatch_arity_example Handle_arity_example _ f0]
  note t1 = arity_check [OF su Handle_dispatch_arity_example Handle_arity_example _ f1]
  note t2 = arity_check [OF su Handle_dispatch_arity_example Handle_arity_example _ f2]
  from t0 have a: "responses_at 0
     [Responded 0 (Failure ''get: Wrong number of arguments.''),
      Responded 1 (Failure ''SET: Too few arguments.''),
      Applied 2, Flushed 0, Responded 2 (Success \<lparr>string_response = Some ''k''\<rparr>)] =
     [Failure ''get: Wrong number of arguments.'']"
    by (simp add: mk_info_def)
  from t1 have b: "responses_at 1
     [Responded 0 (Failure ''get: Wrong number of arguments.''),
      Responded 1 (Failure ''SET: Too few arguments.''),
      Applied 2, Flushed 0, Responded 2 (Success \<lparr>string_response = Some ''k''\<rparr>)] =
     [Failure ''SET: Too few arguments.'']"
    by (simp add: mk_info_def)
  from t2 have c: "responses_at 2
     [Responded 0 (Failure ''get: Wrong number of arguments.''),
      Responded 1 (Failure ''SET: Too few arguments.'')] = [] \<and>
   \<lparr>read = True, index = 2, operation = ''k''\<rparr> \<in> heap_ops
     [\<lparr>ops = [\<lparr>read = True, index = 2, operation = ''k''\<rparr>], next_block = None\<rparr>]"
    by (simp add: mk_info_def example_env_def heap_ops_def)
  from su Handle_arity_example a b c show ?thesis by simp
qed

subsection \<open>The prefix of failure messages\<close>

text \<open>
  C8, as stated, fails: the failure message carries the first token as the client
  sent it (only the copy used for the table lookup is lowercased), so the unknown
  command \<open>FOO\<close> is answered \<open>FOO: Unsupported call.\<close>; and a status of the backend
  (here of the session's apply) is answered without any prefix.
\<close>

theorem failure_prefix_counterexample:
  "Handle 2 example_env [[''FOO'', ''a'', ''b'']] =
     Inr [Responded 0 (Failure ''FOO: Unsupported call.'')] \<and>
   ''FOO: Unsupported call.'' \<noteq> ''foo: Unsupported call.'' \<and>
   Handle 2 rejecting_env [[''set'', ''k'', ''v'']] =
     Inr [Applied 0, Responded 0 (Failure ''rejected'')]"
  by code_simp

text \<open>
  C8, amended. Every failure response the dispatcher emits before the commit (unknown
  command, arity, parser, key, client set-up) is the first token of the command exactly
  as the client sent it, then \<open>: \<close>, then the error text. When the client is set up,
  an unknown command with first token \<open>tok\<close> gets one response in the whole life of
  the batch, the failure \<open>tok: Unsupported call.\<close>, and nothing of it is applied to a
  session. When the set-up of the client fails with a status, every command of the
  batch, known or not, gets the one response \<open>tok: Could not open .redis table. \<close>
  followed by the status. With fuel above twice the number of commands plus four the
  run returns.
\<close>

theorem failure_prefix:
  assumes hd: "Handle_dispatch env batch = Inr (committed, s)"
    and run: "Handle fuel env batch = Inr tr"
  shows "(\<forall>i m. Responded i (Failure m) \<in> set (trace s) \<longrightarrow>
            i < length batch \<and> batch ! i \<noteq> [] \<and> prefix ((batch ! i) ! 0 @ '': '') m) \<and>
         (setup_status env = None \<longrightarrow>
            (\<forall>idx < length batch. FetchHandler (batch ! idx) = None \<longrightarrow>
               responses_at idx tr = [Failure ((batch ! idx) ! 0 @ '': Unsupported call.'')] \<and>
               Applied idx \<notin> set tr)) \<and>
         (\<forall>status. setup_status env = Some status \<longrightarrow>
            (\<forall>idx < length batch.
               responses_at idx tr =
                 [Failure ((batch ! idx) ! 0 @ '': Could not open .redis table. '' @ status)] \<and>
               Applied idx \<notin> set tr)) \<and>
         (\<forall>fuel'. 2 * length batch + 4 < fuel' \<longrightarrow> (\<exists>tr'. Handle fuel' env batch = Inr tr'))"
proof -
  have "list_all (dispatch_event batch) (trace s)"
    using hd by (rule Handle_dispatch_events)
  then have a: "\<forall>i m. Responded i (Failure m) \<in> set (trace s) \<longrightarrow>
            i < length batch \<and> batch ! i \<noteq> [] \<and> prefix ((batch ! i) ! 0 @ '': '') m"
    by (auto simp: list_all_iff)
  have b: "responses_at idx tr = [Failure ((batch ! idx) ! 0 @ '': Unsupported call.'')] \<and>
           Applied idx \<notin> set tr"
    if su: "setup_status env = None" and idx: "idx < length batch"
      and f: "FetchHandler (batch ! idx) = None" for idx
  proof -
    from f have "dispatcher_answer env (batch ! idx) =
        Some (Failure ((batch ! idx) ! 0 @ '': Unsupported call.''))"
      by (simp add: dispatcher_answer_def)
    from Handle_answered [OF su hd run idx this] show ?thesis by simp
  qed
  have c: "responses_at idx tr =
             [Failure ((batch ! idx) ! 0 @ '': Could not open .redis table. '' @ status)] \<and>
           Applied idx \<notin> set tr"
    if "setup_status env = Some status" and "idx < length batch" for status idx
    using Handle_setup_failed_answered [OF that(1) run that(2)] .
  have d: "\<exists>tr'. Handle fuel' env batch = Inr tr'" if "2 * length batch + 4 < fuel'" for fuel'
    using Handle_dispatch_run_returns [OF hd that] .
  from a b c d show ?thesis by blast
qed

lemma Handle_FOO:
  "Handle 2 example_env [[''FOO'', ''a'', ''b'']] =
     Inr [Responded 0 (Failure ''FOO: Unsupported call.'')]"
  by code_simp

lemma Handle_dispatch_FOO_failed:
  "Handle_dispatch setup_failed_env [[''FOO'', ''a'', ''b'']] =
     Inr (False, init_state\<lparr>trace :=
       [Responded 0 (Failure ''FOO: Could not open .redis table. no table'')]\<rparr>)"
  by code_simp

lemma Handle_FOO_failed:
  "Handle 2 setup_failed_env [[''FOO'', ''a'', ''b'']] =
     Inr [Responded 0 (Failure ''FOO: Could not open .redis table. no table'')]"
  by code_simp

theorem failure_prefix_witness:
  "Handle 2 example_env [[''FOO'', ''a'', ''b'']] =
     Inr [Responded 0 (Failure ''FOO: Unsupported call.'')] \<and>
   prefix ''FOO: '' ''FOO: Unsupported call.'' \<and>
   responses_at 0 [Responded 0 (Failure ''FOO: Unsupported call.'')] =
     [Failure ''FOO: Unsupported call.''] \<and>
   Handle 2 setup_failed_env [[''FOO'', ''a'', ''b'']] =
     Inr [Responded 0 (Failure ''FOO: Could not open .redis table. no table'')] \<and>
   prefix ''FOO: '' ''FOO: Could not open .redis table. no table'' \<and>
   responses_at 0 [Responded 0 (Failure ''FOO: Could not open .redis table. no table'')] =
     [Failure ''FOO: Could not open .redis table. no table'']"
proof -
  have su: "setup_status example_env = None" "setup_status setup_failed_env = Some ''no table''"
    by (simp_all add: example_env_def setup_failed_env_def)
  note t1 = failure_prefix [OF Handle_dispatch_FOO Handle_FOO]
  note t2 = failure_prefix [OF Handle_dispatch_FOO_failed Handle_FOO_failed]
  from t1 have "prefix ''FOO: '' ''FOO: Unsupported call.''"
    by (simp add: init_state_def)
  moreover from t1 su FetchHandler_FOO
  have "responses_at 0 [Responded 0 (Failure ''FOO: Unsupported call.'')] =
     [Failure ''FOO: Unsupported call.'']"
    by simp
  moreover from t2 have "prefix ''FOO: '' ''FOO: Could not open .redis table. no table''"
    by (simp add: init_state_def)
  moreover from t2 su
  have "responses_at 0 [Responded 0 (Failure ''FOO: Could not open .redis table. no table'')] =
     [Failure ''FOO: Could not open .redis table. no table'']"
    by simp
  ultimately show ?thesis using Handle_FOO Handle_FOO_failed by simp
qed

subsection \<open>ECHO\<close>

text \<open>
  C9, as stated, fails: when the set-up of the client fails, an ECHO of two tokens is
  answered like every other command of the batch, with the set-up error and not with
  its second token.
\<close>

theorem echo_command_counterexample:
  "Handle 2 setup_failed_env [[''echo'', ''hello'']] =
     Inr [Responded 0 (Failure ''echo: Could not open .redis table. no table'')]"
  by code_simp

text \<open>
  C9, amended. When the client is set up, an ECHO command of exactly two tokens gets
  one response at its index in the whole life of the batch: a success whose
  \<open>string_response\<close> is the second token, byte for byte. No operation of that index
  is applied to a session, and no block of the heap holds an operation of that index.
  With fuel above twice the number of commands plus four the run returns.
\<close>

theorem echo_command:
  assumes su: "setup_status env = None"
    and hd: "Handle_dispatch env batch = Inr (committed, s)"
    and run: "Handle fuel env batch = Inr tr"
    and idx: "idx < length batch" and c: "batch ! idx = [cmd, arg]"
    and e: "to_lower cmd = ''echo''"
  shows "responses_at idx tr = [Success \<lparr>string_response = Some arg\<rparr>] \<and>
         Applied idx \<notin> set tr \<and>
         idx \<notin> index ` heap_ops (heap s) \<and>
         (\<forall>fuel'. 2 * length batch + 4 < fuel' \<longrightarrow> (\<exists>tr'. Handle fuel' env batch = Inr tr'))"
proof -
  have "FetchHandler (batch ! idx) = Some (mk_info ''echo'' 2 ECHO)"
    using c e by (simp add: FetchHandler_def PopulateHandlers_echo)
  with c have "dispatcher_answer env (batch ! idx) = Some (Success \<lparr>string_response = Some arg\<rparr>)"
    by (simp add: dispatcher_answer_def mk_info_def)
  from Handle_answered [OF su hd run idx this] Handle_dispatch_run_returns [OF hd]
  show ?thesis by simp
qed

lemma Handle_dispatch_echo_set:
  "Handle_dispatch example_env [[''Echo'', ''hello''], [''set'', ''k'', ''v'']] =
     Inr (True,
       \<lparr>ctx = \<lparr>read_data = \<lparr>used_keys = {}, block = None\<rparr>,
               write_data = \<lparr>used_keys = {''k''}, block = Some 0\<rparr>,
               flush_head = None, last_conflict_was_read = None\<rparr>,
        heap = [\<lparr>ops = [\<lparr>read = False, index = 1, operation = ''k''\<rparr>], next_block = None\<rparr>],
        trace = [Responded 0 (Success \<lparr>string_response = Some ''hello''\<rparr>)]\<rparr>)"
  by code_simp

lemma Handle_echo_set:
  "Handle 3 example_env [[''Echo'', ''hello''], [''set'', ''k'', ''v'']] =
     Inr [Responded 0 (Success \<lparr>string_response = Some ''hello''\<rparr>), Applied 1, Flushed 0,
          Responded 1 (Success \<lparr>string_response = Some ''k''\<rparr>)]"
  by code_simp

theorem echo_command_witness:
  "setup_status example_env = None \<and>
   Handle 3 example_env [[''Echo'', ''hello''], [''set'', ''k'', ''v'']] =
     Inr [Responded 0 (Success \<lparr>string_response = Some ''hello''\<rparr>), Applied 1, Flushed 0,
          Responded 1 (Success \<lparr>string_response = Some ''k''\<rparr>)] \<and>
   responses_at 0
     [Responded 0 (Success \<lparr>string_response = Some ''hello''\<rparr>), Applied 1, Flushed 0,
      Responded 1 (Success \<lparr>string_response = Some ''k''\<rparr>)] =
     [Success \<lparr>string_response = Some ''hello''\<rparr>] \<and>
   0 \<notin> index ` heap_ops
     [\<lparr>ops = [\<lparr>read = False, index = 1, operation = ''k''\<rparr>], next_block = None\<rparr>] \<and>
   (\<exists>tr'. Handle 9 example_env [[''Echo'', ''hello''], [''set'', ''k'', ''v'']] = Inr tr')"
proof -
  have su: "setup_status example_env = None" by (simp add: example_env_def)
  from echo_command [OF su Handle_dispatch_echo_set Handle_echo_set, of 0 "''Echo''" "''hello''"]
    to_lower_Echo su Handle_echo_set
  show ?thesis by simp
qed

end
